theory Spec2Isabelle
  imports Main
begin

section \<open>Common types\<close>

text \<open>
  A Go function that returns \<open>(value, error)\<close> or that can panic is modelled with a sum
  type: \<open>Inl\<close> carries the failure, \<open>Inr\<close> the value. An \<open>error\<close> value is identified with
  its message (\<open>err.Error()\<close>); a run-time panic is kept apart from a returned error.
\<close>

datatype failure = Err string | Panic string

section \<open>Key detector (package detector)\<close>

text \<open>
  \<open>type Pattern struct { Name []string; Regex string }\<close>
\<close>

record Pattern =
  Name :: "string list"
  Regex :: string

text \<open>
  Package \<open>regexp\<close> belongs to the Go standard library, not to the repository, so it is a
  parameter of the model: \<open>Compile\<close> yields a compiled expression of some type \<open>'re\<close> or
  an error message, and \<open>MatchString\<close> says whether a compiled expression matches
  somewhere in a string (Go does not anchor).
\<close>

record 're regexp =
  Compile :: "string \<Rightarrow> string + 're"
  MatchString :: "'re \<Rightarrow> string \<Rightarrow> bool"

text \<open>
  \<open>type KeyDetector struct { patterns []Pattern; compiled map[string]*regexp.Regexp;
  verbose bool }\<close>
\<close>

record 're KeyDetector =
  patterns :: "Pattern list"
  compiled :: "string \<rightharpoonup> 're"
  verbose :: bool

text \<open>
  The inner loop of \<open>NewKeyDetector\<close>:
  \<open>for _, name := range pattern.Name { compiled[name] = re }\<close>.
\<close>

fun register_names :: "(string \<rightharpoonup> 're) \<Rightarrow> 're \<Rightarrow> string list \<Rightarrow> (string \<rightharpoonup> 're)" where
  "register_names m re [] = m"
| "register_names m re (name # names) = register_names (m(name \<mapsto> re)) re names"

text \<open>
  The outer loop of \<open>NewKeyDetector\<close>. When a regex does not compile the error message is
  built from \<open>pattern.Name[0]\<close>, which panics on an entry without names.
\<close>

fun compile_all ::
  "'re regexp \<Rightarrow> (string \<rightharpoonup> 're) \<Rightarrow> Pattern list \<Rightarrow> failure + (string \<rightharpoonup> 're)" where
  "compile_all L m [] = Inr m"
| "compile_all L m (pattern # rest) =
     (case Compile L (Regex pattern) of
        Inl err \<Rightarrow>
          (case Name pattern of
             [] \<Rightarrow> Inl (Panic ''index out of range [0] with length 0'')
           | n # _ \<Rightarrow> Inl (Err (''invalid regex pattern for '' @ n @ '': '' @ err)))
      | Inr re \<Rightarrow> compile_all L (register_names m re (Name pattern)) rest)"

text \<open>
  \<open>NewKeyDetector(configData)\<close>. Decoding the JSON payload is the standard library's
  work; the model takes its outcome: \<open>Inl msg\<close> when \<open>json.Unmarshal\<close> fails, \<open>Inr ps\<close>
  with the decoded entries otherwise. The zero value of \<open>verbose\<close> is \<open>false\<close>.
\<close>

definition NewKeyDetector ::
  "'re regexp \<Rightarrow> string + Pattern list \<Rightarrow> failure + 're KeyDetector" where
  "NewKeyDetector L configData =
     (case configData of
        Inl err \<Rightarrow> Inl (Err (''failed to parse config data: '' @ err))
      | Inr ps \<Rightarrow>
          (case compile_all L Map.empty ps of
             Inl f \<Rightarrow> Inl f
           | Inr m \<Rightarrow> Inr \<lparr>patterns = ps, compiled = m, verbose = False\<rparr>))"

text \<open>
  The loop of \<open>DetectService\<close>. \<open>pattern.Name[0]\<close> panics on an empty name list, and
  \<open>re.MatchString\<close> on the nil pointer that a missing map key yields panics too.
  Printing in verbose mode does not change the result and is left out.
\<close>

fun detect_loop ::
  "'re regexp \<Rightarrow> (string \<rightharpoonup> 're) \<Rightarrow> Pattern list \<Rightarrow> string \<Rightarrow> failure + string" where
  "detect_loop L m [] key = Inr ''''"
| "detect_loop L m (pattern # rest) key =
     (case Name pattern of
        [] \<Rightarrow> Inl (Panic ''index out of range [0] with length 0'')
      | n # _ \<Rightarrow>
          (case m n of
             None \<Rightarrow> Inl (Panic ''nil pointer dereference'')
           | Some re \<Rightarrow> if MatchString L re key then Inr n else detect_loop L m rest key))"

definition DetectService :: "'re regexp \<Rightarrow> 're KeyDetector \<Rightarrow> string \<Rightarrow> failure + string" where
  "DetectService L d key = detect_loop L (compiled d) (patterns d) key"

text \<open>
  \<open>ValidatePattern\<close>, the check of one entry that the package also offers.
  \<open>NewKeyDetector\<close> does not call it.
\<close>

definition ValidatePattern :: "'re regexp \<Rightarrow> Pattern \<Rightarrow> string option" where
  "ValidatePattern L pattern =
     (if length (Name pattern) = 0 then Some ''pattern must have at least one name''
      else if Regex pattern = '''' then Some ''pattern must have a regex''
      else (case Compile L (Regex pattern) of
              Inl err \<Rightarrow> Some (''invalid regex pattern: '' @ err)
            | Inr _ \<Rightarrow> None))"

subsection \<open>The detector as the specification words it\<close>

text \<open>
  Detection as the specification describes it: go through the entries in configuration
  order and return the first alias of the first entry whose own regex matches the key,
  the empty string when none does.
\<close>

fun detect_spec :: "'re regexp \<Rightarrow> Pattern list \<Rightarrow> string \<Rightarrow> string" where
  "detect_spec L [] key = ''''"
| "detect_spec L (p # ps) key =
     (case Compile L (Regex p) of
        Inr re \<Rightarrow> if MatchString L re key then hd (Name p) else detect_spec L ps key
      | Inl _ \<Rightarrow> detect_spec L ps key)"

text \<open>
  A regular-expression library for concrete runs. On a pattern made of letters and
  digits only, Go's \<open>regexp\<close> compiles the pattern and matches exactly the strings that
  contain it; \<open>literal_regexp\<close> does the same, with the pattern text standing for the
  compiled object. It rejects every other pattern and is used on such patterns only.
\<close>

definition is_alnum :: "char \<Rightarrow> bool" where
  "is_alnum c =
     (let n = of_char c :: nat
      in (48 \<le> n \<and> n \<le> 57) \<or> (65 \<le> n \<and> n \<le> 90) \<or> (97 \<le> n \<and> n \<le> 122))"

fun Contains :: "string \<Rightarrow> string \<Rightarrow> bool" where
  "Contains [] sub = (sub = [])"
| "Contains (c # cs) sub = (take (length sub) (c # cs) = sub \<or> Contains cs sub)"

definition literal_regexp :: "string regexp" where
  "literal_regexp =
     \<lparr>Compile = (\<lambda>s. if list_all is_alnum s then Inr s else Inl ''pattern outside the literal fragment''),
      MatchString = (\<lambda>re key. Contains key re)\<rparr>"

text \<open>
  Two configurations for concrete runs. In \<open>dup_alias_config\<close> two entries declare the
  alias \<open>A\<close>; in \<open>overlap_config\<close> all aliases differ and both patterns occur in the key
  \<open>xabx\<close>. \<open>overlap_detector\<close> is the detector that loading \<open>overlap_config\<close> builds.
\<close>

definition dup_alias_config :: "Pattern list" where
  "dup_alias_config = [\<lparr>Name = [''A''], Regex = ''a''\<rparr>, \<lparr>Name = [''A''], Regex = ''b''\<rparr>]"

definition overlap_config :: "Pattern list" where
  "overlap_config =
     [\<lparr>Name = [''First'', ''F''], Regex = ''ab''\<rparr>, \<lparr>Name = [''Second''], Regex = ''b''\<rparr>]"

definition overlap_detector :: "string KeyDetector" where
  "overlap_detector =
     \<lparr>patterns = overlap_config,
      compiled = [''First'' \<mapsto> ''ab'', ''F'' \<mapsto> ''ab'', ''Second'' \<mapsto> ''b''],
      verbose = False\<rparr>"

text \<open>
  An entry keeps its canonical alias when every later entry that declares the same
  string as one of its aliases carries the same regex.
\<close>

fun canonical_kept :: "Pattern list \<Rightarrow> bool" where
  "canonical_kept [] = True"
| "canonical_kept (p # ps) =
     (list_all (\<lambda>q. hd (Name p) \<in> set (Name q) \<longrightarrow> Regex q = Regex p) ps \<and> canonical_kept ps)"

section \<open>Input parser (package input)\<close>

text \<open>
  A Go string is a sequence of bytes, and so is a \<open>string\<close> here.
  \<open>strings.TrimSpace\<close> removes the leading and the trailing white space "as defined by
  Unicode": it decodes the string as UTF-8, rune by rune, from the front and then from
  the back, and drops the runes for which \<open>unicode.IsSpace\<close> holds. \<open>White_Space\<close> lists
  the code points of \<open>unicode.IsSpace\<close>: U+0009 to U+000D, U+0020, U+0085, U+00A0,
  U+1680, U+2000 to U+200A, U+2028, U+2029, U+202F, U+205F and U+3000. All of them are
  below U+10000, so \<open>utf8\<close> encodes in one, two or three bytes.
\<close>

definition White_Space :: "nat list" where
  "White_Space =
     [0x09, 0x0A, 0x0B, 0x0C, 0x0D, 0x20, 0x85, 0xA0, 0x1680,
      0x2000, 0x2001, 0x2002, 0x2003, 0x2004, 0x2005, 0x2006, 0x2007, 0x2008, 0x2009, 0x200A,
      0x2028, 0x2029, 0x202F, 0x205F, 0x3000]"

definition utf8 :: "nat \<Rightarrow> string" where
  "utf8 r =
     (if r < 0x80 then [char_of r]
      else if r < 0x800 then [char_of (0xC0 + r div 0x40), char_of (0x80 + r mod 0x40)]
      else [char_of (0xE0 + r div 0x1000), char_of (0x80 + r div 0x40 mod 0x40),
            char_of (0x80 + r mod 0x40)])"

definition space_encodings :: "string list" where
  "space_encodings = map utf8 White_Space"

text \<open>
  The decoder yields a white-space rune at the front of a string exactly when the string
  starts with the encoding of one: a byte sequence that is not valid UTF-8 decodes to
  U+FFFD, which is no white space, and no encoding is the beginning of another.
  \<open>rune_len ts s\<close> is the length of the member of \<open>ts\<close> that \<open>s\<close> starts with, and \<open>0\<close>
  when there is none; \<open>strip_front\<close> drops such members as long as there is one.
\<close>

fun rune_len :: "string list \<Rightarrow> string \<Rightarrow> nat" where
  "rune_len [] s = 0"
| "rune_len (t # ts) s =
     (if t \<noteq> [] \<and> take (length t) s = t then length t else rune_len ts s)"

fun strip_front :: "string list \<Rightarrow> string \<Rightarrow> string" where
  "strip_front ts [] = []"
| "strip_front ts (c # cs) =
     (if rune_len ts (c # cs) = 0 then c # cs
      else strip_front ts (drop (rune_len ts (c # cs) - 1) cs))"

text \<open>
  From the back, \<open>utf8.DecodeLastRuneInString\<close> yields a white-space rune exactly when
  the string ends with the encoding of one (no encoding is the end of another), so the
  trailing white space is stripped from the reversed string with the reversed encodings.
\<close>

definition TrimSpace :: "string \<Rightarrow> string" where
  "TrimSpace s =
     rev (strip_front (map rev space_encodings) (rev (strip_front space_encodings s)))"

text \<open>
  What a \<open>bufio.Scanner\<close> delivers over its life: the texts of the successful \<open>Scan()\<close>
  calls in order, then the value of \<open>Err()\<close> (\<open>None\<close> for nil).
\<close>

record scanned =
  texts :: "string list"
  scan_Err :: "string option"

text \<open>
  The scanning loop shared by \<open>FromStdin\<close> and \<open>FromFile\<close>:
  \<open>key := strings.TrimSpace(scanner.Text());
  if key != "" && !seen[key] { seen[key] = true; keys = append(keys, key) }\<close>.
\<close>

fun collect_keys :: "string list \<Rightarrow> (string \<Rightarrow> bool) \<Rightarrow> string list \<Rightarrow> string list" where
  "collect_keys [] seen keys = keys"
| "collect_keys (text # rest) seen keys =
     (let key = TrimSpace text
      in if key \<noteq> [] \<and> \<not> seen key
         then collect_keys rest (seen(key := True)) (keys @ [key])
         else collect_keys rest seen keys)"

definition FromStdin :: "scanned \<Rightarrow> failure + string list" where
  "FromStdin stdin =
     (let keys = collect_keys (texts stdin) (\<lambda>_. False) []
      in case scan_Err stdin of
           Some err \<Rightarrow> Inl (Err (''error reading from stdin: '' @ err))
         | None \<Rightarrow> Inr keys)"

text \<open>\<open>os_Open\<close> stands for the file system: an error message or the file's scanner.\<close>

definition FromFile :: "(string \<Rightarrow> string + scanned) \<Rightarrow> string \<Rightarrow> failure + string list" where
  "FromFile os_Open filename =
     (case os_Open filename of
        Inl err \<Rightarrow> Inl (Err (''failed to open file: '' @ err))
      | Inr file \<Rightarrow>
          (let keys = collect_keys (texts file) (\<lambda>_. False) []
           in case scan_Err file of
                Some err \<Rightarrow> Inl (Err (''error reading from file: '' @ err))
              | None \<Rightarrow> Inr keys))"

definition FromSingle :: "string \<Rightarrow> string list" where
  "FromSingle key = [TrimSpace key]"

text \<open>
  The order of first occurrence, as the specification words it: every element once, at
  the place where it first appears.
\<close>

function first_occurrences :: "'a list \<Rightarrow> 'a list" where
  "first_occurrences [] = []"
| "first_occurrences (x # xs) = x # first_occurrences (removeAll x xs)"
  by pat_completeness auto
termination
  by (relation "measure length") (auto simp: less_Suc_eq_le length_removeAll_less_eq)

text \<open>
  What the specification asks of the supplied keys, for a source that delivers the texts
  \<open>ts\<close>: the trimmed, non-empty texts in the order of their first occurrence, each
  once.
\<close>

definition supplied :: "string list \<Rightarrow> string list \<Rightarrow> bool" where
  "supplied ts keys \<longleftrightarrow>
     keys = first_occurrences (filter (\<lambda>k. k \<noteq> []) (map TrimSpace ts)) \<and>
     distinct keys \<and> list_all (\<lambda>k. k \<noteq> [] \<and> TrimSpace k = k) keys"

text \<open>
  A file for concrete runs: a key between spaces, a line that holds only an ideographic
  space (U+3000), the same key after a no-break space (U+00A0) and before a carriage
  return, and a second key.
\<close>

definition sample_file :: scanned where
  "sample_file =
     \<lparr>texts = ['' k1 '', [CHR 0xE3, CHR 0x80, CHR 0x80],
               [CHR 0xC2, CHR 0xA0] @ ''k1'' @ [CHR 0x0D], ''k2''],
      scan_Err = None\<rparr>"

definition sample_open :: "string \<Rightarrow> string + scanned" where
  "sample_open filename = (if filename = ''keys.txt'' then Inr sample_file else Inl ''no such file'')"

section \<open>Validation results and the validator interface (package validator)\<close>

text \<open>
  \<open>type RiskLevel string\<close> and \<open>type ValidationMethod string\<close> with their constants, and
  the error \<open>ErrInvalidKey\<close>, identified with its message.
\<close>

type_synonym RiskLevel = string

definition RiskLevelLow :: RiskLevel where "RiskLevelLow = ''low''"
definition RiskLevelMedium :: RiskLevel where "RiskLevelMedium = ''medium''"
definition RiskLevelHigh :: RiskLevel where "RiskLevelHigh = ''high''"

definition MethodHTTP :: string where "MethodHTTP = ''http''"

definition ErrInvalidKey :: string where "ErrInvalidKey = ''invalid API key''"

text \<open>
  A value of the \<open>Details\<close> map (\<open>map[string]interface{}\<close>): the reference validator
  stores either a string or a map with the keys \<open>status_code\<close> and \<open>vulnerable\<close>.
\<close>

datatype detail = Text string | ProbeDetail int bool

text \<open>
  \<open>type ValidationResult struct\<close>. \<open>Error\<close> is \<open>None\<close> for a nil error; \<open>ValidatedAt\<close> is a
  clock reading.
\<close>

record ValidationResult =
  Valid :: bool
  Service :: string
  Permissions :: "string list"
  RiskLevel :: RiskLevel
  Details :: "string \<rightharpoonup> detail"
  Error :: "string option"
  ErrorStr :: string
  ValidatedAt :: nat

section \<open>The reference validator (package services)\<close>

text \<open>
  \<open>type APIResponse struct\<close> and \<open>type APIEndpoint struct\<close>. The maps of an endpoint are
  static literals and are kept as lists of pairs.
\<close>

record APIResponse =
  StatusCode :: int
  Content :: string
  Status :: string
  ErrorMessage :: string

record APIEndpoint =
  URL :: string
  Method :: string
  Parameters :: "(string \<times> string) list"
  Headers :: "(string \<times> string) list"
  PostData :: "(string \<times> string) list"
  VulnCheck :: "APIResponse \<Rightarrow> bool"

text \<open>\<open>var googleMapsEndpoints\<close>: Static Map, Street View, Directions, Geolocation.\<close>

definition googleMapsEndpoints :: "APIEndpoint list" where
  "googleMapsEndpoints =
     [\<lparr>URL = ''https://maps.googleapis.com/maps/api/staticmap'',
       Method = ''GET'',
       Parameters = [(''center'', ''45,10''), (''zoom'', ''7''), (''size'', ''400x400'')],
       Headers = [(''Accept'', ''*/*'')],
       PostData = [],
       VulnCheck = (\<lambda>resp. StatusCode resp = 200 \<or> Contains (Content resp) ''PNG'')\<rparr>,
      \<lparr>URL = ''https://maps.googleapis.com/maps/api/streetview'',
       Method = ''GET'',
       Parameters = [(''size'', ''400x400''), (''location'', ''40.720032,-73.988354''),
                     (''fov'', ''90''), (''heading'', ''235''), (''pitch'', ''10'')],
       Headers = [(''Accept'', ''*/*'')],
       PostData = [],
       VulnCheck = (\<lambda>resp. StatusCode resp = 200 \<or> Contains (Content resp) ''PNG'')\<rparr>,
      \<lparr>URL = ''https://maps.googleapis.com/maps/api/directions/json'',
       Method = ''GET'',
       Parameters = [(''origin'', ''Disneyland''), (''destination'', ''Universal Studios Hollywood'')],
       Headers = [(''Accept'', ''application/json'')],
       PostData = [],
       VulnCheck = (\<lambda>resp. StatusCode resp = 200 \<and> ErrorMessage resp = '''')\<rparr>,
      \<lparr>URL = ''https://www.googleapis.com/geolocation/v1/geolocate'',
       Method = ''POST'',
       Parameters = [],
       Headers = [(''Content-Type'', ''application/json''), (''Accept'', ''application/json'')],
       PostData = [(''considerIp'', ''true'')],
       VulnCheck = (\<lambda>resp. StatusCode resp = 200 \<and> \<not> Contains (Content resp) ''error'')\<rparr>]"

text \<open>
  The request that \<open>validateEndpoint\<close> hands to the HTTP client, and the world outside
  the program: the clock, \<open>url.Parse\<close> (an error message, or the query values the URL
  already has), \<open>json.Marshal\<close>, \<open>http.NewRequestWithContext\<close> (\<open>None\<close> when it
  succeeds), the client's \<open>Do\<close> followed by \<open>io.ReadAll\<close> (a transport error, or the status
  code with a read error or the body), and \<open>json.Unmarshal\<close> into the response struct,
  whose error the code ignores.
\<close>

record Request =
  reqMethod :: string
  reqURL :: string
  reqQuery :: "string \<rightharpoonup> string"
  reqBody :: "string option"
  reqHeader :: "(string \<times> string) list"

record world =
  time_Now :: nat
  url_Parse :: "string \<Rightarrow> string + (string \<rightharpoonup> string)"
  json_Marshal :: "(string \<times> string) list \<Rightarrow> string + string"
  http_NewRequest :: "string \<Rightarrow> string \<Rightarrow> string option"
  client_Do :: "Request \<Rightarrow> string + int \<times> (string + string)"
  json_Unmarshal :: "string \<Rightarrow> APIResponse \<Rightarrow> APIResponse"

text \<open>
  \<open>validateEndpoint\<close>: every failure is returned as an error with its own prefix.
\<close>

definition validateEndpoint :: "world \<Rightarrow> APIEndpoint \<Rightarrow> string \<Rightarrow> string + APIResponse" where
  "validateEndpoint w endpoint key =
     (case url_Parse w (URL endpoint) of
        Inl err \<Rightarrow> Inl (''invalid endpoint URL: '' @ err)
      | Inr q0 \<Rightarrow>
          (let q = foldl (\<lambda>q (k, v). q(k \<mapsto> v)) (q0(''key'' \<mapsto> key)) (Parameters endpoint)
           in case (if Method endpoint = ''POST'' \<and> length (PostData endpoint) > 0
                    then map_sum id Some (json_Marshal w (PostData endpoint))
                    else Inr None) of
                Inl err \<Rightarrow> Inl (''failed to marshal post data: '' @ err)
              | Inr body \<Rightarrow>
                  (case http_NewRequest w (Method endpoint) (URL endpoint) of
                     Some err \<Rightarrow> Inl (''failed to create request: '' @ err)
                   | None \<Rightarrow>
                       (case client_Do w
                               \<lparr>reqMethod = Method endpoint, reqURL = URL endpoint, reqQuery = q,
                                reqBody = body, reqHeader = Headers endpoint\<rparr> of
                          Inl err \<Rightarrow> Inl (''request failed: '' @ err)
                        | Inr (code, Inl err) \<Rightarrow> Inl (''failed to read response: '' @ err)
                        | Inr (code, Inr content) \<Rightarrow>
                            Inr (json_Unmarshal w content
                                   \<lparr>StatusCode = code, Content = content,
                                    Status = '''', ErrorMessage = ''''\<rparr>)))))"

text \<open>\<open>assessRiskLevel\<close>: a switch on \<open>len(vulnerableAPIs)\<close>.\<close>

definition assessRiskLevel :: "string list \<Rightarrow> RiskLevel" where
  "assessRiskLevel vulnerableAPIs =
     (if length vulnerableAPIs = 0 then RiskLevelLow
      else if length vulnerableAPIs = 1 \<or> length vulnerableAPIs = 2 then RiskLevelMedium
      else RiskLevelHigh)"

text \<open>
  The loop of \<open>Validate\<close> over the endpoints, on the pair of \<open>result\<close> and
  \<open>vulnerableAPIs\<close>. A failed probe writes its text into \<open>Details\<close> and the loop goes on
  (\<open>continue\<close>).
\<close>

fun check_endpoints ::
  "world \<Rightarrow> string \<Rightarrow> APIEndpoint list \<Rightarrow> ValidationResult \<times> string list \<Rightarrow>
   ValidationResult \<times> string list" where
  "check_endpoints w key [] (result, vulnerableAPIs) = (result, vulnerableAPIs)"
| "check_endpoints w key (endpoint # rest) (result, vulnerableAPIs) =
     (case validateEndpoint w endpoint key of
        Inl err \<Rightarrow>
          check_endpoints w key rest
            (result\<lparr>Details := (Details result)(URL endpoint \<mapsto> Text (''Error: '' @ err))\<rparr>,
             vulnerableAPIs)
      | Inr resp \<Rightarrow>
          (let (result1, vulnerableAPIs1) =
                 (if VulnCheck endpoint resp
                  then (result\<lparr>Valid := True\<rparr>, vulnerableAPIs @ [URL endpoint])
                  else (result, vulnerableAPIs))
           in check_endpoints w key rest
                (result1\<lparr>Details := (Details result1)(URL endpoint \<mapsto>
                     ProbeDetail (StatusCode resp) (VulnCheck endpoint resp))\<rparr>,
                 vulnerableAPIs1)))"

text \<open>
  \<open>Validate\<close>, written for any endpoint table; the reference validator runs it on
  \<open>googleMapsEndpoints\<close>. Its error result is nil on every path, so it returns \<open>Inr\<close>.
\<close>

definition Validate_endpoints ::
  "string \<Rightarrow> APIEndpoint list \<Rightarrow> world \<Rightarrow> string \<Rightarrow> string + ValidationResult" where
  "Validate_endpoints service endpoints w key =
     (let result0 = \<lparr>Valid = False, Service = service, Permissions = [], RiskLevel = '''',
                     Details = Map.empty, Error = None, ErrorStr = '''',
                     ValidatedAt = time_Now w\<rparr>;
          (result1, vulnerableAPIs) = check_endpoints w key endpoints (result0, []);
          result2 = result1\<lparr>Permissions := vulnerableAPIs,
                            RiskLevel := assessRiskLevel vulnerableAPIs\<rparr>;
          result3 = (if \<not> Valid result2
                     then result2\<lparr>Error := Some ErrInvalidKey,
                                  ErrorStr := ''API key not vulnerable for any endpoints''\<rparr>
                     else result2)
      in Inr result3)"

text \<open>
  The \<open>Validator\<close> interface as a record of its three methods, and the reference
  implementation \<open>GoogleMapsValidator\<close>.
\<close>

record Validator =
  Validate :: "world \<Rightarrow> string \<Rightarrow> string + ValidationResult"
  GetService :: string
  GetValidationMethod :: string

definition GoogleMapsValidator :: Validator where
  "GoogleMapsValidator =
     \<lparr>Validate = Validate_endpoints ''Google Safe Browsing API Key'' googleMapsEndpoints,
      GetService = ''Google Safe Browsing API Key'',
      GetValidationMethod = MethodHTTP\<rparr>"

text \<open>
  Whether probing an endpoint finds it vulnerable: the probe answers and the endpoint's
  own check accepts the answer.
\<close>

definition vulnerable :: "world \<Rightarrow> string \<Rightarrow> APIEndpoint \<Rightarrow> bool" where
  "vulnerable w key endpoint =
     (case validateEndpoint w endpoint key of Inl _ \<Rightarrow> False | Inr resp \<Rightarrow> VulnCheck endpoint resp)"

text \<open>What the loop leaves in \<open>Details\<close> for one endpoint.\<close>

definition detail_of :: "world \<Rightarrow> string \<Rightarrow> APIEndpoint \<Rightarrow> detail" where
  "detail_of w key endpoint =
     (case validateEndpoint w endpoint key of
        Inl err \<Rightarrow> Text (''Error: '' @ err)
      | Inr resp \<Rightarrow> ProbeDetail (StatusCode resp) (VulnCheck endpoint resp))"

text \<open>
  Worlds for concrete runs. In \<open>base_world\<close> every URL parses, every request is built and
  every endpoint answers 403 with a body that is not JSON, which \<open>json.Unmarshal\<close>
  leaves alone. \<open>three_open_world\<close> answers 200 on the first three Google Maps
  endpoints; in \<open>flaky_world\<close> the request to the first one fails in transport and the
  others answer 200; \<open>strict_world\<close> answers 200 everywhere and rejects the URL
  \<open>://maps\<close>, which has no scheme, as \<open>url.Parse\<close> does. \<open>malformed_endpoint\<close> is an
  endpoint with that URL; the four URLs of \<open>googleMapsEndpoints\<close> all parse.
  \<open>unparsed_world\<close> answers 200 everywhere and is the world in which \<open>url.Parse\<close> would
  reject the Street View URL of the reference table itself.
\<close>

definition base_world :: world where
  "base_world =
     \<lparr>time_Now = 0,
      url_Parse = (\<lambda>u. Inr Map.empty),
      json_Marshal = (\<lambda>kvs. Inr ''{}''),
      http_NewRequest = (\<lambda>m u. None),
      client_Do = (\<lambda>req. Inr (403, Inr ''forbidden'')),
      json_Unmarshal = (\<lambda>content resp. resp)\<rparr>"

definition three_open_world :: world where
  "three_open_world =
     base_world\<lparr>client_Do :=
       (\<lambda>req. if reqURL req = ''https://www.googleapis.com/geolocation/v1/geolocate''
              then Inr (403, Inr ''forbidden'') else Inr (200, Inr ''ok''))\<rparr>"

definition flaky_world :: world where
  "flaky_world =
     base_world\<lparr>client_Do :=
       (\<lambda>req. if reqURL req = ''https://maps.googleapis.com/maps/api/staticmap''
              then Inl ''dial tcp: i/o timeout'' else Inr (200, Inr ''ok''))\<rparr>"

definition strict_world :: world where
  "strict_world =
     base_world\<lparr>url_Parse :=
       (\<lambda>u. if u = ''://maps'' then Inl ''missing protocol scheme'' else Inr Map.empty),
       client_Do := (\<lambda>req. Inr (200, Inr ''ok''))\<rparr>"

definition unparsed_world :: world where
  "unparsed_world =
     base_world\<lparr>url_Parse :=
       (\<lambda>u. if u = ''https://maps.googleapis.com/maps/api/streetview''
            then Inl ''missing protocol scheme'' else Inr Map.empty),
       client_Do := (\<lambda>req. Inr (200, Inr ''ok''))\<rparr>"

definition malformed_endpoint :: APIEndpoint where
  "malformed_endpoint =
     \<lparr>URL = ''://maps'', Method = ''GET'', Parameters = [], Headers = [], PostData = [],
      VulnCheck = (\<lambda>resp. StatusCode resp = 200)\<rparr>"

section \<open>Validation manager (package validator)\<close>

text \<open>
  \<open>type ValidationManager struct\<close>: the registry map. Its HTTP client is never used and
  its lock guards the map only; both are left out.
\<close>

record ValidationManager =
  validators :: "string \<rightharpoonup> Validator"

definition NewValidationManager :: ValidationManager where
  "NewValidationManager = \<lparr>validators = Map.empty\<rparr>"

definition RegisterValidator :: "ValidationManager \<Rightarrow> Validator \<Rightarrow> ValidationManager" where
  "RegisterValidator vm v = vm\<lparr>validators := (validators vm)(GetService v \<mapsto> v)\<rparr>"

definition GetValidator :: "ValidationManager \<Rightarrow> string \<Rightarrow> Validator option" where
  "GetValidator vm service = validators vm service"

definition ValidateKey ::
  "ValidationManager \<Rightarrow> world \<Rightarrow> string \<Rightarrow> string \<Rightarrow> string + ValidationResult" where
  "ValidateKey vm w service key =
     (case GetValidator vm service of
        None \<Rightarrow> Inl (''no validator found for service: '' @ service)
      | Some validator \<Rightarrow>
          (case Validate validator w key of
             Inl err \<Rightarrow> Inl err
           | Inr result \<Rightarrow> Inr result))"

subsection \<open>\<open>ValidateKeysParallel\<close> as interleaved steps\<close>

text \<open>
  \<open>ValidateKeysParallel\<close> starts one goroutine per key and waits for all of them. The
  model runs the goroutines as interleaved atomic steps. A goroutine holds its two
  arguments \<open>index\<close> and \<open>apiKey\<close> and stands at one of these points:
  \<^item> \<open>Created\<close>: started, before \<open>semaphore <- struct{}{}\<close>;
  \<^item> \<open>Running\<close>: the send went through and \<open>vm.ValidateKey\<close> is in flight;
  \<^item> \<open>Returned r\<close>: \<open>ValidateKey\<close> has returned \<open>r\<close>;
  \<^item> \<open>Stored r\<close>: \<open>results[index]\<close> is written, the deferred calls are pending;
  \<^item> \<open>Released r\<close>: the deferred \<open><-semaphore\<close> has run;
  \<^item> \<open>Finished r\<close>: the deferred \<open>wg.Done()\<close> has run and the goroutine is gone.
\<close>

datatype point =
    Created
  | Running
  | Returned "string + ValidationResult"
  | Stored "string + ValidationResult"
  | Released "string + ValidationResult"
  | Finished "string + ValidationResult"

record goroutine =
  index :: nat
  apiKey :: string
  at :: point

text \<open>
  The state of one call: the goroutines started so far (the main loop has run once for
  each), the number of elements in the channel \<open>semaphore\<close>, the counter of the wait
  group, the slice \<open>results\<close> (\<open>None\<close> is a nil pointer), and what the call has returned,
  if it has.
\<close>

record batch =
  tasks :: "goroutine list"
  semaphore :: nat
  wg :: nat
  results :: "ValidationResult option list"
  returned :: "ValidationResult option list option"

text \<open>
  A schedule is a list of events. Each names the thread that moves; \<open>Return\<close> and
  \<open>Store\<close> carry the world at that moment (the network's answers and the clock).
\<close>

datatype event =
    Spawn
  | Acquire nat
  | Return nat world
  | Store nat world
  | Release nat
  | Done nat
  | Wait

text \<open>The verdict written for a failed key, and the value of a result slot.\<close>

definition error_result :: "string \<Rightarrow> string \<Rightarrow> nat \<Rightarrow> ValidationResult" where
  "error_result service err t =
     \<lparr>Valid = False, Service = service, Permissions = [], RiskLevel = '''',
      Details = Map.empty, Error = Some err, ErrorStr = err, ValidatedAt = t\<rparr>"

definition slot_value :: "string \<Rightarrow> string + ValidationResult \<Rightarrow> nat \<Rightarrow> ValidationResult" where
  "slot_value service r t =
     (case r of Inl err \<Rightarrow> error_result service err t | Inr result \<Rightarrow> result)"

definition move :: "goroutine list \<Rightarrow> nat \<Rightarrow> point \<Rightarrow> goroutine list" where
  "move ts i p = ts[i := (ts ! i)\<lparr>at := p\<rparr>]"

text \<open>
  One step. An event whose thread cannot move (a send on the full channel, \<open>wg.Wait()\<close>
  with a positive counter, a goroutine that is elsewhere or does not exist) leaves the
  state as it is. The channel has capacity 5.
\<close>

fun step :: "ValidationManager \<Rightarrow> string \<Rightarrow> string list \<Rightarrow> batch \<Rightarrow> event \<Rightarrow> batch" where
  "step vm service keys s Spawn =
     (if length (tasks s) < length keys
      then s\<lparr>tasks := tasks s @
                 [\<lparr>index = length (tasks s), apiKey = keys ! length (tasks s), at = Created\<rparr>],
             wg := wg s + 1\<rparr>
      else s)"
| "step vm service keys s (Acquire i) =
     (if i < length (tasks s) \<and> at (tasks s ! i) = Created \<and> semaphore s < 5
      then s\<lparr>tasks := move (tasks s) i Running, semaphore := semaphore s + 1\<rparr>
      else s)"
| "step vm service keys s (Return i w) =
     (if i < length (tasks s) \<and> at (tasks s ! i) = Running
      then s\<lparr>tasks := move (tasks s) i
                 (Returned (ValidateKey vm w service (apiKey (tasks s ! i))))\<rparr>
      else s)"
| "step vm service keys s (Store i w) =
     (if i < length (tasks s)
      then (case at (tasks s ! i) of
              Returned r \<Rightarrow>
                s\<lparr>results := (results s)[index (tasks s ! i) :=
                                Some (slot_value service r (time_Now w))],
                  tasks := move (tasks s) i (Stored r)\<rparr>
            | _ \<Rightarrow> s)
      else s)"
| "step vm service keys s (Release i) =
     (if i < length (tasks s)
      then (case at (tasks s ! i) of
              Stored r \<Rightarrow> s\<lparr>semaphore := semaphore s - 1, tasks := move (tasks s) i (Released r)\<rparr>
            | _ \<Rightarrow> s)
      else s)"
| "step vm service keys s (Done i) =
     (if i < length (tasks s)
      then (case at (tasks s ! i) of
              Released r \<Rightarrow> s\<lparr>wg := wg s - 1, tasks := move (tasks s) i (Finished r)\<rparr>
            | _ \<Rightarrow> s)
      else s)"
| "step vm service keys s Wait =
     (if length (tasks s) = length keys \<and> wg s = 0 \<and> returned s = None
      then s\<lparr>returned := Some (results s)\<rparr>
      else s)"

definition start :: "string list \<Rightarrow> batch" where
  "start keys =
     \<lparr>tasks = [], semaphore = 0, wg = 0, results = replicate (length keys) None,
      returned = None\<rparr>"

definition run :: "ValidationManager \<Rightarrow> string \<Rightarrow> string list \<Rightarrow> event list \<Rightarrow> batch" where
  "run vm service keys sched = foldl (step vm service keys) (start keys) sched"

text \<open>The number of \<open>ValidateKey\<close> calls in flight.\<close>

definition in_flight :: "batch \<Rightarrow> nat" where
  "in_flight s = length (filter (\<lambda>t. at t = Running) (tasks s))"

text \<open>Which goroutines have an element of theirs in the channel, and which count in the
  wait group.\<close>

fun holds_permit :: "point \<Rightarrow> bool" where
  "holds_permit Running = True"
| "holds_permit (Returned r) = True"
| "holds_permit (Stored r) = True"
| "holds_permit _ = False"

fun live :: "point \<Rightarrow> bool" where
  "live (Finished r) = False"
| "live _ = True"

text \<open>What a goroutine's call has returned, and whether its slot is written.\<close>

fun outcome :: "point \<Rightarrow> (string + ValidationResult) option" where
  "outcome Created = None"
| "outcome Running = None"
| "outcome (Returned r) = Some r"
| "outcome (Stored r) = Some r"
| "outcome (Released r) = Some r"
| "outcome (Finished r) = Some r"

fun has_stored :: "point \<Rightarrow> bool" where
  "has_stored (Stored r) = True"
| "has_stored (Released r) = True"
| "has_stored (Finished r) = True"
| "has_stored _ = False"

text \<open>
  A registry, keys and schedules for concrete runs. \<open>picky_validator\<close> fails on the key
  \<open>bad\<close> and accepts every other key. In \<open>crossed_schedule\<close> the goroutine of the second
  key overtakes that of the first at every point. In \<open>crowd_schedule\<close> six goroutines
  are started and each tries to send on the channel.
\<close>

definition ok_result :: ValidationResult where
  "ok_result =
     \<lparr>Valid = True, Service = ''svc'', Permissions = [''probe''], RiskLevel = RiskLevelMedium,
      Details = Map.empty, Error = None, ErrorStr = '''', ValidatedAt = 0\<rparr>"

definition picky_validator :: Validator where
  "picky_validator =
     \<lparr>Validate = (\<lambda>w key. if key = ''bad'' then Inl ''connection refused'' else Inr ok_result),
      GetService = ''svc'',
      GetValidationMethod = MethodHTTP\<rparr>"

definition picky_manager :: ValidationManager where
  "picky_manager = RegisterValidator NewValidationManager picky_validator"

definition two_keys :: "string list" where
  "two_keys = [''bad'', ''good'']"

definition crossed_schedule :: "event list" where
  "crossed_schedule =
     [Spawn, Spawn, Acquire 1, Acquire 0, Return 1 base_world, Return 0 base_world,
      Store 1 base_world, Release 1, Done 1, Store 0 base_world, Release 0, Done 0, Wait]"

definition six_keys :: "string list" where
  "six_keys = [''k0'', ''k1'', ''k2'', ''k3'', ''k4'', ''k5'']"

definition crowd_schedule :: "event list" where
  "crowd_schedule =
     [Spawn, Spawn, Spawn, Spawn, Spawn, Spawn,
      Acquire 0, Acquire 1, Acquire 2, Acquire 3, Acquire 4, Acquire 5]"

text \<open>
  Six keys of which the first five fail, and a schedule that starts all six goroutines
  and lets the five failing ones take all five places in the channel and get their
  errors back, so that the sixth waits to send.
\<close>

definition mixed_keys :: "string list" where
  "mixed_keys = [''bad'', ''bad'', ''bad'', ''bad'', ''bad'', ''good'']"

definition jam_schedule :: "event list" where
  "jam_schedule =
     [Spawn, Spawn, Spawn, Spawn, Spawn, Spawn,
      Acquire 0, Acquire 1, Acquire 2, Acquire 3, Acquire 4, Acquire 5,
      Return 0 base_world, Return 1 base_world, Return 2 base_world, Return 3 base_world,
      Return 4 base_world]"

subsection \<open>Invariants of the interleaved run\<close>

text \<open>The shape of the state: lengths, and the arguments each goroutine was given.\<close>

definition shaped :: "string list \<Rightarrow> batch \<Rightarrow> bool" where
  "shaped keys s \<longleftrightarrow>
     length (tasks s) \<le> length keys \<and> length (results s) = length keys \<and>
     (\<forall>i<length (tasks s). index (tasks s ! i) = i \<and> apiKey (tasks s ! i) = keys ! i)"

text \<open>The channel holds one element for each goroutine between its send and its
  receive, and never more than five.\<close>

definition permits_ok :: "batch \<Rightarrow> bool" where
  "permits_ok s \<longleftrightarrow>
     semaphore s = length (filter (\<lambda>t. holds_permit (at t)) (tasks s)) \<and> semaphore s \<le> 5"

text \<open>The wait group counts the goroutines that have not called \<open>wg.Done()\<close>.\<close>

definition counted :: "batch \<Rightarrow> bool" where
  "counted s \<longleftrightarrow> wg s = length (filter (\<lambda>t. live (at t)) (tasks s))"

text \<open>
  What the schedule so far says about the goroutine of one key: the value it holds was
  returned by \<open>ValidateKey\<close> on its own key, and once it has stored, its own slot holds
  the verdict made from that value.
\<close>

definition recorded_at ::
  "ValidationManager \<Rightarrow> string \<Rightarrow> string list \<Rightarrow> event list \<Rightarrow> point \<Rightarrow>
   ValidationResult option \<Rightarrow> nat \<Rightarrow> bool" where
  "recorded_at vm service keys sched p slot i \<longleftrightarrow>
     (case outcome p of
        None \<Rightarrow> \<not> has_stored p
      | Some r \<Rightarrow>
          (\<exists>w. Return i w \<in> set sched \<and> r = ValidateKey vm w service (keys ! i)) \<and>
          (if has_stored p
           then \<exists>w. Store i w \<in> set sched \<and> slot = Some (slot_value service r (time_Now w))
           else True))"

definition recorded ::
  "ValidationManager \<Rightarrow> string \<Rightarrow> string list \<Rightarrow> event list \<Rightarrow> batch \<Rightarrow> bool" where
  "recorded vm service keys sched s \<longleftrightarrow>
     (\<forall>i<length (tasks s).
        recorded_at vm service keys sched (at (tasks s ! i)) (results s ! i) i)"

text \<open>Once the call has returned nothing moves any more, and it returns the slice as it
  is when every goroutine has finished.\<close>

definition joined :: "string list \<Rightarrow> batch \<Rightarrow> bool" where
  "joined keys s \<longleftrightarrow>
     (case returned s of
        None \<Rightarrow> True
      | Some out \<Rightarrow> out = results s \<and> length (tasks s) = length keys \<and> wg s = 0)"

text \<open>
  The work that is left: the steps every goroutine still has to take, six for a key whose
  goroutine is not started yet (the start and the five steps of the goroutine), and the
  return of \<open>wg.Wait()\<close>.
\<close>

fun steps_left :: "point \<Rightarrow> nat" where
  "steps_left Created = 5"
| "steps_left Running = 4"
| "steps_left (Returned r) = 3"
| "steps_left (Stored r) = 2"
| "steps_left (Released r) = 1"
| "steps_left (Finished r) = 0"

definition remaining :: "string list \<Rightarrow> batch \<Rightarrow> nat" where
  "remaining keys s =
     6 * (length keys - length (tasks s)) +
     sum_list (map (\<lambda>t. steps_left (at t)) (tasks s)) +
     (if returned s = None then 1 else 0)"

section \<open>Properties of the key detector\<close>

lemma register_names_apply:
  "register_names m re names a = (if a \<in> set names then Some re else m a)"
  by (induction names arbitrary: m) auto

text \<open>
  Once an alias is bound to an entry's compiled regex, compiling further entries leaves
  the binding alone as long as each of them that declares the alias has the same regex.
\<close>

lemma compile_all_keeps:
  assumes "compile_all L m post = Inr m'" "m a = Some re" "Compile L (Regex p) = Inr re"
    "list_all (\<lambda>q. a \<in> set (Name q) \<longrightarrow> Regex q = Regex p) post"
  shows "m' a = Some re"
  using assms
proof (induction post arbitrary: m)
  case Nil
  then show ?case by simp
next
  case (Cons q post)
  from Cons.prems(1) obtain rq where rq: "Compile L (Regex q) = Inr rq"
    and rest: "compile_all L (register_names m rq (Name q)) post = Inr m'"
    by (auto split: sum.splits list.splits)
  have "register_names m rq (Name q) a = Some re"
    using Cons.prems rq by (auto simp: register_names_apply)
  with Cons.IH[OF rest _ Cons.prems(3)] Cons.prems(4) show ?case by simp
qed

lemma compile_all_lookup:
  assumes "compile_all L m (pre @ p # post) = Inr m'" "a \<in> set (Name p)"
    "list_all (\<lambda>q. a \<in> set (Name q) \<longrightarrow> Regex q = Regex p) post"
  shows "\<exists>re. m' a = Some re \<and> Compile L (Regex p) = Inr re"
  using assms
proof (induction pre arbitrary: m)
  case Nil
  from Nil(1) obtain re where re: "Compile L (Regex p) = Inr re"
    and rest: "compile_all L (register_names m re (Name p)) post = Inr m'"
    by (auto split: sum.splits list.splits)
  have "register_names m re (Name p) a = Some re"
    using Nil(2) by (simp add: register_names_apply)
  from compile_all_keeps[OF rest this re Nil(3)] re show ?case by blast
next
  case (Cons x pre)
  from Cons.prems(1) obtain rx where
    rest: "compile_all L (register_names m rx (Name x)) (pre @ p # post) = Inr m'"
    by (auto split: sum.splits list.splits)
  from Cons.IH[OF rest Cons.prems(2,3)] show ?case .
qed

lemma detect_loop_suffix:
  assumes "compile_all L m0 (pre @ rest) = Inr m'" "canonical_kept rest"
    "list_all (\<lambda>p. Name p \<noteq> []) rest"
  shows "detect_loop L m' rest key = Inr (detect_spec L rest key)"
  using assms
proof (induction rest arbitrary: pre)
  case Nil
  then show ?case by simp
next
  case (Cons p rest)
  from Cons.prems(3) obtain n ns where n: "Name p = n # ns" by (cases "Name p") auto
  have kept: "list_all (\<lambda>q. n \<in> set (Name q) \<longrightarrow> Regex q = Regex p) rest"
    using Cons.prems(2) n by simp
  from compile_all_lookup[OF Cons.prems(1) _ kept] n
  obtain re where re: "m' n = Some re" "Compile L (Regex p) = Inr re" by auto
  have "compile_all L m0 ((pre @ [p]) @ rest) = Inr m'" using Cons.prems(1) by simp
  from Cons.IH[OF this] Cons.prems(2,3)
  have "detect_loop L m' rest key = Inr (detect_spec L rest key)" by simp
  with n re show ?case by simp
qed

text \<open>
  Claim C2, as stated, fails: with \<open>dup_alias_config\<close> the first entry's regex \<open>a\<close>
  matches the key \<open>a\<close>, so the first entry's canonical alias \<open>A\<close> is due, but
  \<open>DetectService\<close> tests the regex stored last under \<open>A\<close>, which is \<open>b\<close>, and reports
  no match.
\<close>

theorem DetectService_shadowed_counterexample:
  "(case NewKeyDetector literal_regexp (Inr dup_alias_config) of
      Inr d \<Rightarrow> DetectService literal_regexp d ''a'' = Inr ''''
    | Inl _ \<Rightarrow> False) \<and>
   detect_spec literal_regexp dup_alias_config ''a'' = ''A''"
  by (simp add: NewKeyDetector_def DetectService_def dup_alias_config_def
      literal_regexp_def is_alnum_def)

text \<open>
  Claim C2, amended: on a table built by a successful load in which every entry has at
  least one alias and no entry's canonical alias is declared again by a later entry with
  a different regex, \<open>DetectService\<close> goes through the entries in configuration order
  and returns the canonical alias of the first entry whose regex matches the key
  (unanchored), so the earlier of two matching entries wins; it returns the empty string
  when no entry matches.
\<close>

theorem DetectService_first_match:
  assumes "NewKeyDetector L (Inr ps) = Inr d"
    and "list_all (\<lambda>p. Name p \<noteq> []) ps"
    and "canonical_kept ps"
  shows "DetectService L d key = Inr (detect_spec L ps key)"
proof -
  from assms(1) obtain m where m: "compile_all L Map.empty ps = Inr m"
    and d: "d = \<lparr>patterns = ps, compiled = m, verbose = False\<rparr>"
    by (auto simp: NewKeyDetector_def split: sum.splits)
  from m have "compile_all L Map.empty ([] @ ps) = Inr m" by simp
  from detect_loop_suffix[OF this assms(3,2)] d show ?thesis
    by (simp add: DetectService_def)
qed

theorem DetectService_first_match_witness:
  "NewKeyDetector literal_regexp (Inr overlap_config) = Inr overlap_detector \<and>
   list_all (\<lambda>p. Name p \<noteq> []) overlap_config \<and>
   canonical_kept overlap_config \<and>
   MatchString literal_regexp ''ab'' ''xabx'' \<and> MatchString literal_regexp ''b'' ''xabx'' \<and>
   DetectService literal_regexp overlap_detector ''xabx'' = Inr ''First'' \<and>
   DetectService literal_regexp overlap_detector ''xyz'' = Inr ''''"
proof -
  have h1: "NewKeyDetector literal_regexp (Inr overlap_config) = Inr overlap_detector"
    by (simp add: NewKeyDetector_def overlap_config_def overlap_detector_def
        literal_regexp_def is_alnum_def)
  have h2: "list_all (\<lambda>p. Name p \<noteq> []) overlap_config"
    by (simp add: overlap_config_def)
  have h3: "canonical_kept overlap_config"
    by (simp add: overlap_config_def)
  have m: "MatchString literal_regexp ''ab'' ''xabx''" "MatchString literal_regexp ''b'' ''xabx''"
    by (simp_all add: literal_regexp_def)
  have s1: "detect_spec literal_regexp overlap_config ''xabx'' = ''First''"
    by (simp add: overlap_config_def literal_regexp_def is_alnum_def)
  have s2: "detect_spec literal_regexp overlap_config ''xyz'' = ''''"
    by (simp add: overlap_config_def literal_regexp_def is_alnum_def)
  from DetectService_first_match[OF h1 h2 h3, of "''xabx''"]
    DetectService_first_match[OF h1 h2 h3, of "''xyz''"] h1 h2 h3 m s1 s2
  show ?thesis by simp
qed

text \<open>
  Claim C3, as stated, fails when two entries declare the same alias: the map holds one
  compiled regex per alias string, the one stored last. In \<open>dup_alias_config\<close> the alias
  \<open>A\<close> of the first entry, whose regex is \<open>a\<close>, looks up the compiled regex \<open>b\<close>.
\<close>

theorem alias_lookup_counterexample:
  "(case NewKeyDetector literal_regexp (Inr dup_alias_config) of
      Inr d \<Rightarrow> compiled d ''A'' = Some ''b''
    | Inl _ \<Rightarrow> False) \<and>
   ''A'' \<in> set (Name (dup_alias_config ! 0)) \<and>
   Compile literal_regexp (Regex (dup_alias_config ! 0)) = Inr ''a''"
  by (simp add: NewKeyDetector_def dup_alias_config_def literal_regexp_def is_alnum_def)

text \<open>
  Claim C3, amended: for every table built by a successful load and every alias of every
  entry, if no later entry declares the same alias string with a different regex, then
  looking the alias up in the alias-to-compiled-regex map yields the compiled pattern of
  the alias's owning entry. (When a later entry does, the lookup yields the pattern
  stored last.)
\<close>

theorem alias_lookup_owner:
  assumes "NewKeyDetector L (Inr (pre @ p # post)) = Inr d"
    and "a \<in> set (Name p)"
    and "list_all (\<lambda>q. a \<in> set (Name q) \<longrightarrow> Regex q = Regex p) post"
  shows "\<exists>re. compiled d a = Some re \<and> Compile L (Regex p) = Inr re"
proof -
  from assms(1) obtain m where m: "compile_all L Map.empty (pre @ p # post) = Inr m"
    and d: "compiled d = m"
    by (auto simp: NewKeyDetector_def split: sum.splits)
  from compile_all_lookup[OF m assms(2,3)] d show ?thesis by simp
qed

theorem alias_lookup_owner_witness:
  "NewKeyDetector literal_regexp (Inr ([] @ overlap_config ! 0 # [overlap_config ! 1])) =
     Inr overlap_detector \<and>
   ''F'' \<in> set (Name (overlap_config ! 0)) \<and>
   list_all (\<lambda>q. ''F'' \<in> set (Name q) \<longrightarrow> Regex q = Regex (overlap_config ! 0))
     [overlap_config ! 1] \<and>
   compiled overlap_detector ''F'' = Some ''ab'' \<and>
   Compile literal_regexp (Regex (overlap_config ! 0)) = Inr ''ab''"
proof -
  have h1: "NewKeyDetector literal_regexp (Inr ([] @ overlap_config ! 0 # [overlap_config ! 1])) =
      Inr overlap_detector"
    by (simp add: NewKeyDetector_def overlap_config_def overlap_detector_def
        literal_regexp_def is_alnum_def)
  have h2: "''F'' \<in> set (Name (overlap_config ! 0))"
    by (simp add: overlap_config_def)
  have h3: "list_all (\<lambda>q. ''F'' \<in> set (Name q) \<longrightarrow> Regex q = Regex (overlap_config ! 0))
      [overlap_config ! 1]"
    by (simp add: overlap_config_def)
  have c: "Compile literal_regexp (Regex (overlap_config ! 0)) = Inr ''ab''"
    by (simp add: overlap_config_def literal_regexp_def is_alnum_def)
  from alias_lookup_owner[OF h1 h2 h3] c h1 h2 h3 show ?thesis by auto
qed

text \<open>
  Claim C8 does not hold of the code: \<open>NewKeyDetector\<close> accepts the payload
  \<open>[{"Name": [], "Regex": "a"}]\<close>, whose only entry has no alias, and \<open>DetectService\<close>
  on the resulting table panics at \<open>pattern.Name[0]\<close> for every key. The package's own
  \<open>ValidatePattern\<close> rejects that entry; \<open>NewKeyDetector\<close> never calls it.
\<close>

theorem NewKeyDetector_accepts_nameless_entry:
  "NewKeyDetector literal_regexp (Inr [\<lparr>Name = [], Regex = ''a''\<rparr>]) =
     Inr \<lparr>patterns = [\<lparr>Name = [], Regex = ''a''\<rparr>], compiled = Map.empty, verbose = False\<rparr> \<and>
   DetectService literal_regexp
     \<lparr>patterns = [\<lparr>Name = [], Regex = ''a''\<rparr>], compiled = Map.empty, verbose = False\<rparr> key =
     Inl (Panic ''index out of range [0] with length 0'') \<and>
   ValidatePattern literal_regexp \<lparr>Name = [], Regex = ''a''\<rparr> =
     Some ''pattern must have at least one name''"
  by (simp add: NewKeyDetector_def DetectService_def ValidatePattern_def
      literal_regexp_def is_alnum_def)

section \<open>Properties of the input parser\<close>

text \<open>The encodings of the white-space code points, byte by byte.\<close>

lemma space_encodings_bytes:
  "space_encodings =
     [[CHR 0x09], [CHR 0x0A], [CHR 0x0B], [CHR 0x0C], [CHR 0x0D], [CHR 0x20],
      [CHR 0xC2, CHR 0x85], [CHR 0xC2, CHR 0xA0], [CHR 0xE1, CHR 0x9A, CHR 0x80],
      [CHR 0xE2, CHR 0x80, CHR 0x80], [CHR 0xE2, CHR 0x80, CHR 0x81],
      [CHR 0xE2, CHR 0x80, CHR 0x82], [CHR 0xE2, CHR 0x80, CHR 0x83],
      [CHR 0xE2, CHR 0x80, CHR 0x84], [CHR 0xE2, CHR 0x80, CHR 0x85],
      [CHR 0xE2, CHR 0x80, CHR 0x86], [CHR 0xE2, CHR 0x80, CHR 0x87],
      [CHR 0xE2, CHR 0x80, CHR 0x88], [CHR 0xE2, CHR 0x80, CHR 0x89],
      [CHR 0xE2, CHR 0x80, CHR 0x8A], [CHR 0xE2, CHR 0x80, CHR 0xA8],
      [CHR 0xE2, CHR 0x80, CHR 0xA9], [CHR 0xE2, CHR 0x80, CHR 0xAF],
      [CHR 0xE2, CHR 0x81, CHR 0x9F], [CHR 0xE3, CHR 0x80, CHR 0x80]]"
  by (simp add: space_encodings_def White_Space_def utf8_def char_of_eq_iff)

lemma rune_len_zero_iff:
  "rune_len ts s = 0 \<longleftrightarrow> (\<forall>t\<in>set ts. t \<noteq> [] \<longrightarrow> take (length t) s \<noteq> t)"
  by (induction ts) auto

lemma rune_len_front:
  assumes "rune_len ts (a @ b) = 0"
  shows "rune_len ts a = 0"
  unfolding rune_len_zero_iff
proof (intro ballI impI notI)
  fix t assume t: "t \<in> set ts" "t \<noteq> []" "take (length t) a = t"
  have "length (take (length t) a) = length t" using t(3) by simp
  then have "length t \<le> length a" by simp
  then have "take (length t) (a @ b) = t" using t(3) by simp
  with assms t(1,2) show False by (simp add: rune_len_zero_iff)
qed

lemma strip_front_clean: "rune_len ts (strip_front ts s) = 0"
proof (induction ts s rule: strip_front.induct)
  case (1 ts)
  show ?case by (simp add: rune_len_zero_iff)
next
  case (2 ts c cs)
  then show ?case by simp
qed

lemma strip_front_id: "rune_len ts s = 0 \<Longrightarrow> strip_front ts s = s"
  by (cases s) simp_all

lemma strip_front_back: "\<exists>p. s = p @ strip_front ts s"
proof (induction ts s rule: strip_front.induct)
  case (1 ts)
  show ?case by simp
next
  case (2 ts c cs)
  show ?case
  proof (cases "rune_len ts (c # cs) = 0")
    case True
    then show ?thesis by simp
  next
    case False
    let ?n = "rune_len ts (c # cs) - 1"
    from 2[OF False] obtain p where p: "drop ?n cs = p @ strip_front ts (drop ?n cs)" by blast
    have "c # cs = (c # take ?n cs) @ drop ?n cs" by simp
    also have "\<dots> = (c # take ?n cs @ p) @ strip_front ts (drop ?n cs)"
      using p by (metis append.assoc append_Cons)
    finally show ?thesis using False by (metis strip_front.simps(2))
  qed
qed

lemma TrimSpace_idem: "TrimSpace (TrimSpace s) = TrimSpace s"
proof -
  let ?a = "strip_front space_encodings s"
  let ?r = "strip_front (map rev space_encodings) (rev ?a)"
  have b: "TrimSpace s = rev ?r" by (simp add: TrimSpace_def)
  from strip_front_back[of "rev ?a" "map rev space_encodings"]
  obtain p where "rev ?a = p @ ?r" by blast
  then have "?a = rev ?r @ rev p" by (metis rev_append rev_rev_ident)
  then have "rune_len space_encodings (rev ?r @ rev p) = 0"
    using strip_front_clean[of space_encodings s] by simp
  then have "rune_len space_encodings (rev ?r) = 0" by (rule rune_len_front)
  then have front: "strip_front space_encodings (rev ?r) = rev ?r" by (rule strip_front_id)
  have rear: "strip_front (map rev space_encodings) ?r = ?r"
    by (rule strip_front_id) (rule strip_front_clean)
  show ?thesis
    unfolding b by (simp add: TrimSpace_def front rear)
qed

lemma removeAll_filter': "removeAll x (filter P xs) = filter (\<lambda>k. P k \<and> k \<noteq> x) xs"
  by (induction xs) auto

lemma collect_keys_eq:
  assumes "\<And>k. seen k \<longleftrightarrow> k \<in> set keys"
  shows "collect_keys ts seen keys =
    keys @ first_occurrences (filter (\<lambda>k. k \<notin> set keys) (filter (\<lambda>k. k \<noteq> []) (map TrimSpace ts)))"
  using assms
proof (induction ts arbitrary: seen keys)
  case Nil
  then show ?case by simp
next
  case (Cons t ts)
  let ?key = "TrimSpace t"
  let ?rest = "filter (\<lambda>k. k \<noteq> []) (map TrimSpace ts)"
  show ?case
  proof (cases "?key \<noteq> [] \<and> \<not> seen ?key")
    case True
    have inv: "\<And>k. (seen(?key := True)) k \<longleftrightarrow> k \<in> set (keys @ [?key])"
      using Cons.prems by auto
    have step: "collect_keys (t # ts) seen keys =
        collect_keys ts (seen(?key := True)) (keys @ [?key])"
      using True by (simp add: Let_def)
    have ih: "collect_keys ts (seen(?key := True)) (keys @ [?key]) =
        (keys @ [?key]) @ first_occurrences (filter (\<lambda>k. k \<notin> set (keys @ [?key])) ?rest)"
      by (rule Cons.IH[OF inv])
    have rm: "removeAll ?key (filter (\<lambda>k. k \<notin> set keys) ?rest)
        = filter (\<lambda>k. k \<notin> set (keys @ [?key])) ?rest"
      by (auto simp: removeAll_filter' intro!: filter_cong)
    have rhs: "filter (\<lambda>k. k \<notin> set keys) (filter (\<lambda>k. k \<noteq> []) (map TrimSpace (t # ts))) =
        ?key # filter (\<lambda>k. k \<notin> set keys) ?rest"
      using True Cons.prems by simp
    show ?thesis
      unfolding step ih rhs first_occurrences.simps rm by simp
  next
    case False
    have step: "collect_keys (t # ts) seen keys = collect_keys ts seen keys"
      using False by (auto simp: Let_def)
    have rhs: "filter (\<lambda>k. k \<notin> set keys) (filter (\<lambda>k. k \<noteq> []) (map TrimSpace (t # ts))) =
        filter (\<lambda>k. k \<notin> set keys) ?rest"
      using False Cons.prems by auto
    show ?thesis unfolding step rhs by (rule Cons.IH[OF Cons.prems])
  qed
qed

lemma first_occurrences_set: "set (first_occurrences xs) = set xs"
  by (induction xs rule: first_occurrences.induct) auto

lemma first_occurrences_distinct: "distinct (first_occurrences xs)"
  by (induction xs rule: first_occurrences.induct) (auto simp: first_occurrences_set)

lemma collect_keys_supplied: "supplied ts (collect_keys ts (\<lambda>_. False) [])"
proof -
  have e: "collect_keys ts (\<lambda>_. False) [] =
      first_occurrences (filter (\<lambda>k. k \<noteq> []) (map TrimSpace ts))"
    using collect_keys_eq[of "\<lambda>_. False" "[]" ts] by simp
  show ?thesis
    unfolding supplied_def e
    by (auto simp: first_occurrences_distinct list_all_iff first_occurrences_set TrimSpace_idem)
qed


text \<open>
  Claim C9, as stated, fails for the single-argument source: \<open>FromSingle\<close> always
  returns one element, and for a blank argument that element is the empty string.
\<close>

theorem FromSingle_blank_counterexample:
  "FromSingle '' '' = [[]] \<and> \<not> list_all (\<lambda>k. k \<noteq> []) (FromSingle '' '')"
  by (simp add: FromSingle_def TrimSpace_def space_encodings_bytes)

text \<open>
  Claim C9, amended: \<open>FromStdin\<close> and \<open>FromFile\<close>, when they succeed, produce the
  trimmed, non-empty texts of their source in the order of first occurrence, without
  repetition; \<open>FromSingle\<close> produces the one-element sequence holding its trimmed
  argument, which is the empty string when the argument is blank. Trimming is that of
  \<open>strings.TrimSpace\<close>: Unicode white space, read as UTF-8, at both ends.
\<close>

theorem input_supplier_keys:
  "(FromStdin stdin = Inr keys \<longrightarrow> supplied (texts stdin) keys) \<and>
   (os_Open filename = Inr file \<and> FromFile os_Open filename = Inr keys' \<longrightarrow>
      supplied (texts file) keys') \<and>
   FromSingle key = [TrimSpace key] \<and>
   list_all (\<lambda>k. TrimSpace k = k) (FromSingle key) \<and> distinct (FromSingle key)"
proof -
  have a: "FromStdin stdin = Inr keys \<longrightarrow> supplied (texts stdin) keys"
    using collect_keys_supplied[of "texts stdin"]
    by (auto simp: FromStdin_def Let_def split: option.splits)
  have b: "os_Open filename = Inr file \<and> FromFile os_Open filename = Inr keys' \<longrightarrow>
      supplied (texts file) keys'"
    using collect_keys_supplied[of "texts file"]
    by (auto simp: FromFile_def Let_def split: option.splits)
  have c: "list_all (\<lambda>k. TrimSpace k = k) (FromSingle key)"
    by (simp add: FromSingle_def TrimSpace_idem)
  from a b c show ?thesis by (simp add: FromSingle_def)
qed

lemma sample_trims:
  "map TrimSpace (texts sample_file) = [''k1'', [], ''k1'', ''k2'']"
  by (simp add: sample_file_def TrimSpace_def space_encodings_bytes)

lemma sample_keys: "collect_keys (texts sample_file) (\<lambda>_. False) [] = [''k1'', ''k2'']"
proof -
  have "texts sample_file = ['' k1 '', [CHR 0xE3, CHR 0x80, CHR 0x80],
               [CHR 0xC2, CHR 0xA0] @ ''k1'' @ [CHR 0x0D], ''k2'']"
    by (simp add: sample_file_def)
  moreover have "TrimSpace '' k1 '' = ''k1''" "TrimSpace [CHR 0xE3, CHR 0x80, CHR 0x80] = []"
    "TrimSpace ([CHR 0xC2, CHR 0xA0] @ ''k1'' @ [CHR 0x0D]) = ''k1''" "TrimSpace ''k2'' = ''k2''"
    using sample_trims by (simp_all add: sample_file_def)
  ultimately show ?thesis by (simp add: Let_def)
qed

theorem input_supplier_keys_witness:
  "FromStdin sample_file = Inr [''k1'', ''k2''] \<and>
   sample_open ''keys.txt'' = Inr sample_file \<and>
   FromFile sample_open ''keys.txt'' = Inr [''k1'', ''k2''] \<and>
   supplied (texts sample_file) [''k1'', ''k2''] \<and>
   FromSingle ([CHR 0xC2, CHR 0xA0] @ '' k1 '') = [''k1'']"
proof -
  have h1: "FromStdin sample_file = Inr [''k1'', ''k2'']"
    using sample_keys by (simp add: FromStdin_def) (simp add: sample_file_def)
  have h2: "sample_open ''keys.txt'' = Inr sample_file"
    by (simp add: sample_open_def)
  have h3: "FromFile sample_open ''keys.txt'' = Inr [''k1'', ''k2'']"
    using sample_keys by (simp add: FromFile_def h2) (simp add: sample_file_def)
  have h4: "FromSingle ([CHR 0xC2, CHR 0xA0] @ '' k1 '') = [''k1'']"
    by (simp add: FromSingle_def TrimSpace_def space_encodings_bytes)
  from input_supplier_keys[of sample_file "[''k1'', ''k2'']" sample_open "''keys.txt''"
      sample_file "[''k1'', ''k2'']" "'' k1 ''"] h1
  have "supplied (texts sample_file) [''k1'', ''k2'']" by blast
  with h1 h2 h3 h4 show ?thesis by blast
qed

section \<open>Properties of the validators\<close>

lemma check_endpoints_step:
  "check_endpoints w key (e # rest) (result, vs) =
     check_endpoints w key rest
       (result\<lparr>Valid := Valid result \<or> vulnerable w key e,
               Details := (Details result)(URL e \<mapsto> detail_of w key e)\<rparr>,
        vs @ (if vulnerable w key e then [URL e] else []))"
  by (cases "validateEndpoint w e key") (simp_all add: vulnerable_def detail_of_def)

lemma check_endpoints_snd:
  "snd (check_endpoints w key eps (result, vs)) = vs @ map URL (filter (vulnerable w key) eps)"
  by (induction eps arbitrary: result vs) (simp_all add: check_endpoints_step del: check_endpoints.simps(2))

lemma check_endpoints_Valid:
  "Valid (fst (check_endpoints w key eps (result, vs))) =
     (Valid result \<or> filter (vulnerable w key) eps \<noteq> [])"
  by (induction eps arbitrary: result vs) (simp_all add: check_endpoints_step del: check_endpoints.simps(2))

lemma check_endpoints_Details_other:
  "u \<notin> URL ` set eps \<Longrightarrow>
   Details (fst (check_endpoints w key eps (result, vs))) u = Details result u"
  by (induction eps arbitrary: result vs) (simp_all add: check_endpoints_step del: check_endpoints.simps(2))

lemma check_endpoints_Details:
  "distinct (map URL eps) \<Longrightarrow> e \<in> set eps \<Longrightarrow>
   Details (fst (check_endpoints w key eps (result, vs))) (URL e) = Some (detail_of w key e)"
proof (induction eps arbitrary: result vs)
  case Nil
  then show ?case by simp
next
  case (Cons x eps)
  show ?case
  proof (cases "e = x")
    case True
    with Cons.prems show ?thesis
      by (simp add: check_endpoints_step check_endpoints_Details_other del: check_endpoints.simps(2))
  next
    case False
    with Cons show ?thesis
      by (simp add: check_endpoints_step del: check_endpoints.simps(2))
  qed
qed

lemma check_endpoints_fields:
  "Service (fst (check_endpoints w key eps (result, vs))) = Service result \<and>
   ValidatedAt (fst (check_endpoints w key eps (result, vs))) = ValidatedAt result \<and>
   Error (fst (check_endpoints w key eps (result, vs))) = Error result"
  by (induction eps arbitrary: result vs) (simp_all add: check_endpoints_step del: check_endpoints.simps(2))

lemma Validate_endpoints_result:
  "\<exists>r. Validate_endpoints service eps w key = Inr r \<and>
     Valid r = (filter (vulnerable w key) eps \<noteq> []) \<and>
     Permissions r = map URL (filter (vulnerable w key) eps) \<and>
     RiskLevel r = assessRiskLevel (map URL (filter (vulnerable w key) eps)) \<and>
     (distinct (map URL eps) \<longrightarrow>
        list_all (\<lambda>e. Details r (URL e) = Some (detail_of w key e)) eps)"
proof -
  define r0 where "r0 = \<lparr>Valid = False, Service = service, Permissions = [], RiskLevel = [],
      Details = Map.empty, Error = None, ErrorStr = [], ValidatedAt = time_Now w\<rparr>"
  obtain r1 vs where c: "check_endpoints w key eps (r0, []) = (r1, vs)" by fastforce
  have vs: "vs = map URL (filter (vulnerable w key) eps)"
    using check_endpoints_snd[of w key eps r0 "[]"] c by simp
  have v: "Valid r1 = (filter (vulnerable w key) eps \<noteq> [])"
    using check_endpoints_Valid[of w key eps r0 "[]"] c by (simp add: r0_def)
  have d: "Details r1 (URL e) = Some (detail_of w key e)"
    if "distinct (map URL eps)" "e \<in> set eps" for e
    using check_endpoints_Details[OF that, of w key r0 "[]"] c by simp
  show ?thesis
    unfolding Validate_endpoints_def Let_def r0_def[symmetric] c
    using vs v d by (simp add: list_all_iff)
qed

text \<open>
  Claim C1: for every endpoint table (the reference validator's is
  \<open>googleMapsEndpoints\<close>), every world and every key, with \<open>M\<close> the number of endpoints
  whose check accepts the probe response, \<open>Validate\<close> returns a verdict with
  \<open>Valid = (M > 0)\<close>, \<open>Permissions\<close> the identifiers of the \<open>M\<close> vulnerable endpoints in
  table order, and \<open>RiskLevel\<close> low for \<open>M = 0\<close>, medium for \<open>1 \<le> M \<le> 2\<close>, high for
  \<open>M \<ge> 3\<close>.
\<close>

theorem endpoint_fold_law:
  "\<exists>r. Validate_endpoints service endpoints w key = Inr r \<and>
     Valid r = (0 < length (filter (vulnerable w key) endpoints)) \<and>
     Permissions r = map URL (filter (vulnerable w key) endpoints) \<and>
     length (Permissions r) = length (filter (vulnerable w key) endpoints) \<and>
     RiskLevel r =
       (if length (filter (vulnerable w key) endpoints) = 0 then RiskLevelLow
        else if length (filter (vulnerable w key) endpoints) \<le> 2 then RiskLevelMedium
        else RiskLevelHigh)"
proof -
  from Validate_endpoints_result[of service endpoints w key]
  obtain r where r: "Validate_endpoints service endpoints w key = Inr r"
    "Valid r = (filter (vulnerable w key) endpoints \<noteq> [])"
    "Permissions r = map URL (filter (vulnerable w key) endpoints)"
    "RiskLevel r = assessRiskLevel (map URL (filter (vulnerable w key) endpoints))"
    by blast
  have "assessRiskLevel (map URL (filter (vulnerable w key) endpoints)) =
       (if length (filter (vulnerable w key) endpoints) = 0 then RiskLevelLow
        else if length (filter (vulnerable w key) endpoints) \<le> 2 then RiskLevelMedium
        else RiskLevelHigh)"
  proof -
    have "(n = 1 \<or> n = 2) = (n \<le> 2)" if "n \<noteq> 0" for n :: nat
      using that by arith
    then show ?thesis by (simp add: assessRiskLevel_def)
  qed
  with r show ?thesis by auto
qed

lemma three_open_hits:
  "filter (vulnerable three_open_world ''k'') googleMapsEndpoints = take 3 googleMapsEndpoints"
  by (simp add: googleMapsEndpoints_def vulnerable_def validateEndpoint_def three_open_world_def base_world_def)

theorem endpoint_fold_law_witness:
  "length (filter (vulnerable three_open_world ''k'') googleMapsEndpoints) = 3 \<and>
   (\<exists>r. Validate GoogleMapsValidator three_open_world ''k'' = Inr r \<and>
      Valid r \<and> length (Permissions r) = 3 \<and> RiskLevel r = RiskLevelHigh)"
proof -
  have n: "length (filter (vulnerable three_open_world ''k'') googleMapsEndpoints) = 3"
    by (simp add: three_open_hits) (simp add: googleMapsEndpoints_def)
  from endpoint_fold_law[of "''Google Safe Browsing API Key''" googleMapsEndpoints
      three_open_world "''k''"] n
  show ?thesis by (auto simp: GoogleMapsValidator_def)
qed

lemma googleMapsEndpoints_distinct: "distinct (map URL googleMapsEndpoints)"
  by (simp add: googleMapsEndpoints_def)

text \<open>
  A failed probe in any table with distinct identifiers: the text of the error goes into
  \<open>Details\<close>, and every endpoint is still probed.
\<close>

lemma Validate_endpoints_failure:
  assumes "distinct (map URL endpoints)" and "e \<in> set endpoints"
    and "validateEndpoint w e key = Inl msg"
  shows "\<exists>r. Validate_endpoints service endpoints w key = Inr r \<and>
     Details r (URL e) = Some (Text (''Error: '' @ msg)) \<and>
     list_all (\<lambda>e'. Details r (URL e') = Some (detail_of w key e')) endpoints \<and>
     Valid r = (filter (vulnerable w key) endpoints \<noteq> []) \<and>
     Permissions r = map URL (filter (vulnerable w key) endpoints)"
proof -
  from Validate_endpoints_result[of service endpoints w key] assms(1)
  obtain r where r: "Validate_endpoints service endpoints w key = Inr r"
    "Permissions r = map URL (filter (vulnerable w key) endpoints)"
    "Valid r = (filter (vulnerable w key) endpoints \<noteq> [])"
    "list_all (\<lambda>e. Details r (URL e) = Some (detail_of w key e)) endpoints"
    by blast
  have "detail_of w key e = Text (''Error: '' @ msg)"
    using assms(3) by (simp add: detail_of_def)
  with r assms(2) show ?thesis
    by (auto simp: list_all_iff)
qed

text \<open>
  Claim C6: in the reference validator's \<open>Validate\<close>, when probing one endpoint fails
  (for a transport error \<open>validateEndpoint\<close> returns the message
  \<open>request failed: ...\<close>), \<open>Validate\<close> still returns a verdict and no error; the
  verdict's \<open>Details\<close> hold \<open>Error: <message>\<close> under that endpoint's identifier, and the
  loop has gone on: every endpoint has its own entry in \<open>Details\<close>, and \<open>Permissions\<close>
  lists the vulnerable ones among all endpoints.
\<close>

theorem probe_failure_recorded:
  assumes "e \<in> set googleMapsEndpoints"
    and "validateEndpoint w e key = Inl msg"
  shows "\<exists>r. Validate GoogleMapsValidator w key = Inr r \<and>
     Details r (URL e) = Some (Text (''Error: '' @ msg)) \<and>
     list_all (\<lambda>e'. Details r (URL e') = Some (detail_of w key e')) googleMapsEndpoints \<and>
     Permissions r = map URL (filter (vulnerable w key) googleMapsEndpoints)"
  using Validate_endpoints_failure[OF googleMapsEndpoints_distinct assms,
      of "''Google Safe Browsing API Key''"]
  by (simp add: GoogleMapsValidator_def) blast

lemma flaky_first:
  "validateEndpoint flaky_world (googleMapsEndpoints ! 0) ''k'' =
     Inl ''request failed: dial tcp: i/o timeout''"
  by (simp add: googleMapsEndpoints_def validateEndpoint_def flaky_world_def base_world_def)

lemma flaky_hits:
  "filter (vulnerable flaky_world ''k'') googleMapsEndpoints = drop 1 googleMapsEndpoints"
  by (simp add: googleMapsEndpoints_def vulnerable_def validateEndpoint_def flaky_world_def base_world_def)

theorem probe_failure_recorded_witness:
  "googleMapsEndpoints ! 0 \<in> set googleMapsEndpoints \<and>
   validateEndpoint flaky_world (googleMapsEndpoints ! 0) ''k'' =
     Inl ''request failed: dial tcp: i/o timeout'' \<and>
   (\<exists>r. Validate GoogleMapsValidator flaky_world ''k'' = Inr r \<and>
      Details r ''https://maps.googleapis.com/maps/api/staticmap'' =
        Some (Text ''Error: request failed: dial tcp: i/o timeout'') \<and>
      Permissions r = [''https://maps.googleapis.com/maps/api/streetview'',
                       ''https://maps.googleapis.com/maps/api/directions/json'',
                       ''https://www.googleapis.com/geolocation/v1/geolocate''])"
proof -
  have h2: "googleMapsEndpoints ! 0 \<in> set googleMapsEndpoints"
    by (simp add: googleMapsEndpoints_def)
  have u: "URL (googleMapsEndpoints ! 0) = ''https://maps.googleapis.com/maps/api/staticmap''"
    by (simp add: googleMapsEndpoints_def)
  have p: "map URL (drop 1 googleMapsEndpoints) =
      [''https://maps.googleapis.com/maps/api/streetview'',
       ''https://maps.googleapis.com/maps/api/directions/json'',
       ''https://www.googleapis.com/geolocation/v1/geolocate'']"
    by (simp add: googleMapsEndpoints_def)
  from probe_failure_recorded[OF h2 flaky_first]
  obtain r where r: "Validate GoogleMapsValidator flaky_world ''k'' = Inr r"
     "Details r (URL (googleMapsEndpoints ! 0)) =
        Some (Text (''Error: '' @ ''request failed: dial tcp: i/o timeout''))"
     "Permissions r = map URL (filter (vulnerable flaky_world ''k'') googleMapsEndpoints)"
    by blast
  have "Details r ''https://maps.googleapis.com/maps/api/staticmap'' =
        Some (Text ''Error: request failed: dial tcp: i/o timeout'')"
    using r(2) u by simp
  moreover have "Permissions r = [''https://maps.googleapis.com/maps/api/streetview'',
                       ''https://maps.googleapis.com/maps/api/directions/json'',
                       ''https://www.googleapis.com/geolocation/v1/geolocate'']"
    using r(3) p by (simp only: flaky_hits)
  ultimately show ?thesis
    using r(1) h2 flaky_first by blast
qed

text \<open>
  Claim C7, as stated, fails: an endpoint URL that does not parse makes
  \<open>validateEndpoint\<close> return an error, and \<open>Validate\<close> treats it like any other failed
  probe. When \<open>url.Parse\<close> rejects the second URL of the reference table, the
  reference validator's \<open>Validate\<close> writes the error text into \<open>Details\<close>, goes on to
  probe the other three endpoints, which all answer, and returns a valid verdict with a
  nil error. The same happens on the reference table with \<open>malformed_endpoint\<close>, whose
  URL \<open>url.Parse\<close> does reject, put in front.
\<close>

theorem malformed_URL_counterexample:
  "validateEndpoint unparsed_world (googleMapsEndpoints ! 1) ''k'' =
     Inl ''invalid endpoint URL: missing protocol scheme'' \<and>
   (case Validate GoogleMapsValidator unparsed_world ''k'' of
      Inr r \<Rightarrow>
        Details r ''https://maps.googleapis.com/maps/api/streetview'' =
          Some (Text ''Error: invalid endpoint URL: missing protocol scheme'') \<and>
        Valid r \<and>
        Permissions r = [''https://maps.googleapis.com/maps/api/staticmap'',
                         ''https://maps.googleapis.com/maps/api/directions/json'',
                         ''https://www.googleapis.com/geolocation/v1/geolocate'']
    | Inl _ \<Rightarrow> False) \<and>
   validateEndpoint strict_world malformed_endpoint ''k'' =
     Inl ''invalid endpoint URL: missing protocol scheme'' \<and>
   (case Validate_endpoints ''svc'' (malformed_endpoint # googleMapsEndpoints) strict_world ''k'' of
      Inr r \<Rightarrow>
        Details r ''://maps'' =
          Some (Text ''Error: invalid endpoint URL: missing protocol scheme'') \<and>
        Valid r \<and> Permissions r = map URL googleMapsEndpoints
    | Inl _ \<Rightarrow> False)"
proof -
  have v: "validateEndpoint strict_world malformed_endpoint ''k'' =
      Inl ''invalid endpoint URL: missing protocol scheme''"
    by (simp add: validateEndpoint_def strict_world_def base_world_def malformed_endpoint_def)
  have d: "distinct (map URL (malformed_endpoint # googleMapsEndpoints))"
    by (simp add: googleMapsEndpoints_def malformed_endpoint_def)
  have hits: "filter (vulnerable strict_world ''k'') (malformed_endpoint # googleMapsEndpoints) =
      googleMapsEndpoints"
    by (simp add: googleMapsEndpoints_def vulnerable_def validateEndpoint_def strict_world_def
        base_world_def malformed_endpoint_def)
  have u: "URL malformed_endpoint = ''://maps''" by (simp add: malformed_endpoint_def)
  from Validate_endpoints_failure[OF d _ v, of "''svc''"]
  obtain r where r: "Validate_endpoints ''svc'' (malformed_endpoint # googleMapsEndpoints)
        strict_world ''k'' = Inr r"
    "Details r (URL malformed_endpoint) =
       Some (Text (''Error: '' @ ''invalid endpoint URL: missing protocol scheme''))"
    "Permissions r =
       map URL (filter (vulnerable strict_world ''k'') (malformed_endpoint # googleMapsEndpoints))"
    "Valid r = (filter (vulnerable strict_world ''k'') (malformed_endpoint # googleMapsEndpoints) \<noteq> [])"
    by auto
  have "Valid r" unfolding r(4) hits by (simp add: googleMapsEndpoints_def)
  moreover have "Permissions r = map URL googleMapsEndpoints" unfolding r(3) hits ..
  moreover have "Details r ''://maps'' =
      Some (Text ''Error: invalid endpoint URL: missing protocol scheme'')"
    using r(2) u by simp
  ultimately have table: "case Validate_endpoints ''svc'' (malformed_endpoint # googleMapsEndpoints)
        strict_world ''k'' of
      Inr r \<Rightarrow>
        Details r ''://maps'' =
          Some (Text ''Error: invalid endpoint URL: missing protocol scheme'') \<and>
        Valid r \<and> Permissions r = map URL googleMapsEndpoints
    | Inl _ \<Rightarrow> False"
    using r(1) by simp
  have v2: "validateEndpoint unparsed_world (googleMapsEndpoints ! 1) ''k'' =
      Inl ''invalid endpoint URL: missing protocol scheme''"
    by (simp add: validateEndpoint_def unparsed_world_def base_world_def googleMapsEndpoints_def)
  have m2: "googleMapsEndpoints ! 1 \<in> set googleMapsEndpoints"
    by (simp add: googleMapsEndpoints_def)
  have u2: "URL (googleMapsEndpoints ! 1) = ''https://maps.googleapis.com/maps/api/streetview''"
    by (simp add: googleMapsEndpoints_def)
  have hits2: "map URL (filter (vulnerable unparsed_world ''k'') googleMapsEndpoints) =
      [''https://maps.googleapis.com/maps/api/staticmap'',
       ''https://maps.googleapis.com/maps/api/directions/json'',
       ''https://www.googleapis.com/geolocation/v1/geolocate'']"
    by (simp add: googleMapsEndpoints_def vulnerable_def validateEndpoint_def unparsed_world_def
        base_world_def)
  from Validate_endpoints_failure[OF googleMapsEndpoints_distinct m2 v2,
      of "''Google Safe Browsing API Key''"]
  obtain r2 where r2: "Validate GoogleMapsValidator unparsed_world ''k'' = Inr r2"
    "Details r2 (URL (googleMapsEndpoints ! 1)) =
       Some (Text (''Error: '' @ ''invalid endpoint URL: missing protocol scheme''))"
    "Permissions r2 = map URL (filter (vulnerable unparsed_world ''k'') googleMapsEndpoints)"
    "Valid r2 = (filter (vulnerable unparsed_world ''k'') googleMapsEndpoints \<noteq> [])"
    by (auto simp: GoogleMapsValidator_def)
  have "filter (vulnerable unparsed_world ''k'') googleMapsEndpoints \<noteq> []"
    using hits2 by auto
  with r2(4) have "Valid r2" by simp
  moreover have "Details r2 ''https://maps.googleapis.com/maps/api/streetview'' =
      Some (Text ''Error: invalid endpoint URL: missing protocol scheme'')"
    using r2(2) u2 by simp
  ultimately have reference: "case Validate GoogleMapsValidator unparsed_world ''k'' of
      Inr r \<Rightarrow>
        Details r ''https://maps.googleapis.com/maps/api/streetview'' =
          Some (Text ''Error: invalid endpoint URL: missing protocol scheme'') \<and>
        Valid r \<and>
        Permissions r = [''https://maps.googleapis.com/maps/api/staticmap'',
                         ''https://maps.googleapis.com/maps/api/directions/json'',
                         ''https://www.googleapis.com/geolocation/v1/geolocate'']
    | Inl _ \<Rightarrow> False"
    using r2(1,3) hits2 by simp
  from v2 reference v table show ?thesis by (intro conjI)
qed

text \<open>
  Claim C7, amended: a malformed endpoint URL is recovered per endpoint, as a transport
  error is. \<open>validateEndpoint\<close> returns \<open>invalid endpoint URL: <message>\<close>; \<open>Validate\<close>
  records \<open>Error: invalid endpoint URL: <message>\<close> under the endpoint's identifier and
  continues: every endpoint of the table has its own entry in \<open>Details\<close>, and \<open>Valid\<close>
  and \<open>Permissions\<close> are those of all endpoints that answer and are found vulnerable.
  \<open>Validate\<close> returns a verdict, never an error.
\<close>

theorem malformed_URL_recovered:
  assumes "distinct (map URL endpoints)" and "e \<in> set endpoints"
    and "url_Parse w (URL e) = Inl msg"
  shows "validateEndpoint w e key = Inl (''invalid endpoint URL: '' @ msg) \<and>
    (\<exists>r. Validate_endpoints service endpoints w key = Inr r \<and>
       Details r (URL e) = Some (Text (''Error: invalid endpoint URL: '' @ msg)) \<and>
       list_all (\<lambda>e'. Details r (URL e') = Some (detail_of w key e')) endpoints \<and>
       Valid r = (filter (vulnerable w key) endpoints \<noteq> []) \<and>
       Permissions r = map URL (filter (vulnerable w key) endpoints))"
proof -
  have v: "validateEndpoint w e key = Inl (''invalid endpoint URL: '' @ msg)"
    using assms(3) by (simp add: validateEndpoint_def)
  from Validate_endpoints_failure[OF assms(1,2) v, of service] v show ?thesis by auto
qed

theorem malformed_URL_recovered_witness:
  "distinct (map URL (malformed_endpoint # googleMapsEndpoints)) \<and>
   malformed_endpoint \<in> set (malformed_endpoint # googleMapsEndpoints) \<and>
   url_Parse strict_world (URL malformed_endpoint) = Inl ''missing protocol scheme'' \<and>
   validateEndpoint strict_world malformed_endpoint ''k'' =
     Inl ''invalid endpoint URL: missing protocol scheme'' \<and>
   (\<exists>r. Validate_endpoints ''svc'' (malformed_endpoint # googleMapsEndpoints) strict_world ''k'' =
          Inr r \<and>
        Details r ''://maps'' =
          Some (Text ''Error: invalid endpoint URL: missing protocol scheme'') \<and>
        Permissions r = map URL googleMapsEndpoints) \<and>
   googleMapsEndpoints ! 1 \<in> set googleMapsEndpoints \<and>
   url_Parse unparsed_world (URL (googleMapsEndpoints ! 1)) = Inl ''missing protocol scheme'' \<and>
   (\<exists>r. Validate GoogleMapsValidator unparsed_world ''k'' = Inr r \<and>
        Details r ''https://maps.googleapis.com/maps/api/streetview'' =
          Some (Text ''Error: invalid endpoint URL: missing protocol scheme'') \<and>
        Valid r \<and>
        Permissions r = [''https://maps.googleapis.com/maps/api/staticmap'',
                         ''https://maps.googleapis.com/maps/api/directions/json'',
                         ''https://www.googleapis.com/geolocation/v1/geolocate''])"
proof -
  have h1: "distinct (map URL (malformed_endpoint # googleMapsEndpoints))"
    by (simp add: googleMapsEndpoints_def malformed_endpoint_def)
  have h2: "malformed_endpoint \<in> set (malformed_endpoint # googleMapsEndpoints)" by simp
  have h3: "url_Parse strict_world (URL malformed_endpoint) = Inl ''missing protocol scheme''"
    by (simp add: strict_world_def malformed_endpoint_def base_world_def)
  have u: "URL malformed_endpoint = ''://maps''" by (simp add: malformed_endpoint_def)
  have hits: "filter (vulnerable strict_world ''k'') (malformed_endpoint # googleMapsEndpoints) =
      googleMapsEndpoints"
    by (simp add: googleMapsEndpoints_def vulnerable_def validateEndpoint_def strict_world_def
        base_world_def malformed_endpoint_def)
  from malformed_URL_recovered[OF h1 h2 h3, of "''k''" "''svc''"] u hits
  have first: "validateEndpoint strict_world malformed_endpoint ''k'' =
     Inl ''invalid endpoint URL: missing protocol scheme'' \<and>
   (\<exists>r. Validate_endpoints ''svc'' (malformed_endpoint # googleMapsEndpoints) strict_world ''k'' =
          Inr r \<and>
        Details r ''://maps'' =
          Some (Text ''Error: invalid endpoint URL: missing protocol scheme'') \<and>
        Permissions r = map URL googleMapsEndpoints)"
    by auto
  have m2: "googleMapsEndpoints ! 1 \<in> set googleMapsEndpoints"
    by (simp add: googleMapsEndpoints_def)
  have p2: "url_Parse unparsed_world (URL (googleMapsEndpoints ! 1)) = Inl ''missing protocol scheme''"
    by (simp add: unparsed_world_def base_world_def googleMapsEndpoints_def)
  have u2: "URL (googleMapsEndpoints ! 1) = ''https://maps.googleapis.com/maps/api/streetview''"
    by (simp add: googleMapsEndpoints_def)
  have hits2: "map URL (filter (vulnerable unparsed_world ''k'') googleMapsEndpoints) =
      [''https://maps.googleapis.com/maps/api/staticmap'',
       ''https://maps.googleapis.com/maps/api/directions/json'',
       ''https://www.googleapis.com/geolocation/v1/geolocate'']"
    by (simp add: googleMapsEndpoints_def vulnerable_def validateEndpoint_def unparsed_world_def
        base_world_def)
  then have some: "filter (vulnerable unparsed_world ''k'') googleMapsEndpoints \<noteq> []"
    by auto
  from malformed_URL_recovered[OF googleMapsEndpoints_distinct m2 p2, of "''k''"
      "''Google Safe Browsing API Key''"]
  obtain r where r: "Validate GoogleMapsValidator unparsed_world ''k'' = Inr r"
    "Details r (URL (googleMapsEndpoints ! 1)) =
       Some (Text (''Error: invalid endpoint URL: '' @ ''missing protocol scheme''))"
    "Valid r = (filter (vulnerable unparsed_world ''k'') googleMapsEndpoints \<noteq> [])"
    "Permissions r = map URL (filter (vulnerable unparsed_world ''k'') googleMapsEndpoints)"
    by (auto simp: GoogleMapsValidator_def)
  from r u2 hits2 some
  have second: "\<exists>r. Validate GoogleMapsValidator unparsed_world ''k'' = Inr r \<and>
        Details r ''https://maps.googleapis.com/maps/api/streetview'' =
          Some (Text ''Error: invalid endpoint URL: missing protocol scheme'') \<and>
        Valid r \<and>
        Permissions r = [''https://maps.googleapis.com/maps/api/staticmap'',
                         ''https://maps.googleapis.com/maps/api/directions/json'',
                         ''https://www.googleapis.com/geolocation/v1/geolocate'']"
    by simp
  from first second h1 h2 h3 m2 p2 show ?thesis by (intro conjI) simp_all
qed

section \<open>Properties of the batch run\<close>

lemma run_Nil: "run vm service keys [] = start keys"
  by (simp add: run_def)

lemma run_snoc: "run vm service keys (sched @ [e]) = step vm service keys (run vm service keys sched) e"
  by (simp add: run_def)

lemma count_update:
  "i < length ts \<Longrightarrow>
   length (filter P (ts[i := y])) + (if P (ts ! i) then 1 else 0) =
   length (filter P ts) + (if P y then 1 else 0)"
proof (induction ts arbitrary: i)
  case Nil
  then show ?case by simp
next
  case (Cons t ts)
  show ?case
  proof (cases i)
    case 0
    then show ?thesis by simp
  next
    case (Suc j)
    with Cons.prems have "j < length ts" by simp
    from Cons.IH[OF this] Suc show ?thesis by simp
  qed
qed

lemma count_move:
  assumes "i < length ts"
  shows "length (filter (\<lambda>t. P (at t)) (move ts i p)) + (if P (at (ts ! i)) then 1 else 0) =
         length (filter (\<lambda>t. P (at t)) ts) + (if P p then 1 else 0)"
  using count_update[OF assms, of "\<lambda>t. P (at t)" "(ts ! i)\<lparr>at := p\<rparr>"]
  by (simp add: move_def)

lemma length_move: "length (move ts i p) = length ts"
  by (simp add: move_def)

lemma nth_move:
  "j < length ts \<Longrightarrow>
   move ts i p ! j = (if j = i then (ts ! j)\<lparr>at := p\<rparr> else ts ! j)"
  by (simp add: move_def nth_list_update)

lemma shaped_step:
  assumes "shaped keys s"
  shows "shaped keys (step vm service keys s e)"
proof (cases e)
  case Spawn
  with assms show ?thesis by (auto simp: shaped_def nth_append less_Suc_eq)
next
  case (Acquire i)
  with assms show ?thesis by (auto simp: shaped_def length_move nth_move)
next
  case (Return i w)
  with assms show ?thesis by (auto simp: shaped_def length_move nth_move)
next
  case (Store i w)
  with assms show ?thesis by (auto simp: shaped_def length_move nth_move split: point.splits)
next
  case (Release i)
  with assms show ?thesis by (auto simp: shaped_def length_move nth_move split: point.splits)
next
  case (Done i)
  with assms show ?thesis by (auto simp: shaped_def length_move nth_move split: point.splits)
next
  case Wait
  with assms show ?thesis by (auto simp: shaped_def)
qed

lemma shaped_run: "shaped keys (run vm service keys sched)"
proof (induction sched rule: rev_induct)
  case Nil
  show ?case by (simp add: run_Nil start_def shaped_def)
next
  case (snoc e sched)
  then show ?case by (simp add: run_snoc shaped_step)
qed

lemma permits_step:
  assumes "permits_ok s"
  shows "permits_ok (step vm service keys s e)"
proof (cases e)
  case Spawn
  with assms show ?thesis by (auto simp: permits_ok_def)
next
  case (Acquire i)
  show ?thesis
  proof (cases "i < length (tasks s) \<and> at (tasks s ! i) = Created \<and> semaphore s < 5")
    case True
    with count_move[of i "tasks s" holds_permit Running] assms Acquire
    show ?thesis by (simp add: permits_ok_def)
  next
    case False
    with assms Acquire show ?thesis by auto
  qed
next
  case (Return i w)
  show ?thesis
  proof (cases "i < length (tasks s) \<and> at (tasks s ! i) = Running")
    case True
    with count_move[of i "tasks s" holds_permit
        "Returned (ValidateKey vm w service (apiKey (tasks s ! i)))"] assms Return
    show ?thesis by (simp add: permits_ok_def)
  next
    case False
    with assms Return show ?thesis by auto
  qed
next
  case (Store i w)
  show ?thesis
  proof (cases "i < length (tasks s)")
    case True
    show ?thesis
    proof (cases "at (tasks s ! i)")
      case (Returned r)
      with count_move[of i "tasks s" holds_permit "Stored r"] assms Store True
      show ?thesis by (simp add: permits_ok_def)
    qed (use assms Store True in auto)
  next
    case False
    with assms Store show ?thesis by auto
  qed
next
  case (Release i)
  show ?thesis
  proof (cases "i < length (tasks s)")
    case True
    show ?thesis
    proof (cases "at (tasks s ! i)")
      case (Stored r)
      with count_move[of i "tasks s" holds_permit "Released r"] assms Release True
      show ?thesis by (auto simp: permits_ok_def)
    qed (use assms Release True in auto)
  next
    case False
    with assms Release show ?thesis by auto
  qed
next
  case (Done i)
  show ?thesis
  proof (cases "i < length (tasks s)")
    case True
    show ?thesis
    proof (cases "at (tasks s ! i)")
      case (Released r)
      with count_move[of i "tasks s" holds_permit "Finished r"] assms Done True
      show ?thesis by (simp add: permits_ok_def)
    qed (use assms Done True in auto)
  next
    case False
    with assms Done show ?thesis by auto
  qed
next
  case Wait
  with assms show ?thesis by (auto simp: permits_ok_def)
qed

lemma permits_run: "permits_ok (run vm service keys sched)"
proof (induction sched rule: rev_induct)
  case Nil
  show ?case by (simp add: run_Nil start_def permits_ok_def)
next
  case (snoc e sched)
  then show ?case by (simp add: run_snoc permits_step)
qed

lemma in_flight_le_permits:
  "in_flight s \<le> length (filter (\<lambda>t. holds_permit (at t)) (tasks s))"
proof -
  have "filter (\<lambda>t. at t = Running) (tasks s) =
        filter (\<lambda>t. at t = Running) (filter (\<lambda>t. holds_permit (at t)) (tasks s))"
    by (auto intro!: filter_cong)
  then show ?thesis
    unfolding in_flight_def by (metis length_filter_le)
qed

text \<open>
  Claim C10: in every state that a call of \<open>ValidateKeysParallel\<close> can reach, whatever the
  service, the keys and the schedule, at most five \<open>ValidateKey\<close> calls are in flight.
  The state is that of one call, with its own channel.
\<close>

theorem at_most_five_in_flight: "in_flight (run vm service keys sched) \<le> 5"
  using permits_run[of vm service keys sched]
    in_flight_le_permits[of "run vm service keys sched"]
  by (simp add: permits_ok_def)

lemma counted_step:
  assumes "counted s"
  shows "counted (step vm service keys s e)"
proof (cases e)
  case Spawn
  with assms show ?thesis by (auto simp: counted_def)
next
  case (Acquire i)
  show ?thesis
  proof (cases "i < length (tasks s) \<and> at (tasks s ! i) = Created \<and> semaphore s < 5")
    case True
    with count_move[of i "tasks s" live Running] assms Acquire
    show ?thesis by (simp add: counted_def)
  next
    case False
    with assms Acquire show ?thesis by auto
  qed
next
  case (Return i w)
  show ?thesis
  proof (cases "i < length (tasks s) \<and> at (tasks s ! i) = Running")
    case True
    with count_move[of i "tasks s" live
        "Returned (ValidateKey vm w service (apiKey (tasks s ! i)))"] assms Return
    show ?thesis by (simp add: counted_def)
  next
    case False
    with assms Return show ?thesis by auto
  qed
next
  case (Store i w)
  show ?thesis
  proof (cases "i < length (tasks s)")
    case True
    show ?thesis
    proof (cases "at (tasks s ! i)")
      case (Returned r)
      with count_move[of i "tasks s" live "Stored r"] assms Store True
      show ?thesis by (simp add: counted_def)
    qed (use assms Store True in auto)
  next
    case False
    with assms Store show ?thesis by auto
  qed
next
  case (Release i)
  show ?thesis
  proof (cases "i < length (tasks s)")
    case True
    show ?thesis
    proof (cases "at (tasks s ! i)")
      case (Stored r)
      with count_move[of i "tasks s" live "Released r"] assms Release True
      show ?thesis by (simp add: counted_def)
    qed (use assms Release True in auto)
  next
    case False
    with assms Release show ?thesis by auto
  qed
next
  case (Done i)
  show ?thesis
  proof (cases "i < length (tasks s)")
    case True
    show ?thesis
    proof (cases "at (tasks s ! i)")
      case (Released r)
      with count_move[of i "tasks s" live "Finished r"] assms Done True
      show ?thesis by (auto simp: counted_def)
    qed (use assms Done True in auto)
  next
    case False
    with assms Done show ?thesis by auto
  qed
next
  case Wait
  with assms show ?thesis by (auto simp: counted_def)
qed

lemma counted_run: "counted (run vm service keys sched)"
proof (induction sched rule: rev_induct)
  case Nil
  show ?case by (simp add: run_Nil start_def counted_def)
next
  case (snoc e sched)
  then show ?case by (simp add: run_snoc counted_step)
qed

lemma counted_zero_finished:
  assumes "counted s" "wg s = 0" "i < length (tasks s)"
  shows "\<exists>r. at (tasks s ! i) = Finished r"
proof -
  from assms(1,2) have "filter (\<lambda>t. live (at t)) (tasks s) = []" by (simp add: counted_def)
  then have "\<not> live (at (tasks s ! i))"
    using assms(3) by (simp add: filter_empty_conv)
  then show ?thesis by (cases "at (tasks s ! i)") auto
qed

lemma recorded_iff:
  "recorded vm service keys sched s \<longleftrightarrow>
     (\<forall>i<length (tasks s).
        recorded_at vm service keys sched (at (tasks s ! i)) (results s ! i) i)"
  by (simp add: recorded_def)

lemma recorded_at_mono:
  assumes "recorded_at vm service keys sched p slot i"
  shows "recorded_at vm service keys (sched @ [e]) p slot i"
proof (cases "outcome p")
  case None
  with assms show ?thesis by (simp add: recorded_at_def)
next
  case (Some r)
  from assms Some obtain w where w: "Return i w \<in> set sched" "r = ValidateKey vm w service (keys ! i)"
    by (auto simp: recorded_at_def)
  have ret: "\<exists>w. Return i w \<in> set (sched @ [e]) \<and> r = ValidateKey vm w service (keys ! i)"
    using w by auto
  show ?thesis
  proof (cases "has_stored p")
    case True
    with assms Some obtain w' where
      "Store i w' \<in> set sched" "slot = Some (slot_value service r (time_Now w'))"
      by (auto simp: recorded_at_def)
    then have "\<exists>w. Store i w \<in> set (sched @ [e]) \<and> slot = Some (slot_value service r (time_Now w))"
      by auto
    with ret Some True show ?thesis by (simp add: recorded_at_def)
  next
    case False
    with ret Some show ?thesis by (simp add: recorded_at_def)
  qed
qed

text \<open>A step that leaves every goroutine but \<open>i\<close> and every slot but \<open>i\<close> alone keeps the
  record, provided the record of \<open>i\<close> itself is shown.\<close>

lemma recorded_change_one:
  assumes old: "recorded vm service keys sched s"
    and len: "length (tasks s') = length (tasks s)"
    and others: "\<And>j. j < length (tasks s) \<Longrightarrow> j \<noteq> i \<Longrightarrow>
        at (tasks s' ! j) = at (tasks s ! j) \<and> results s' ! j = results s ! j"
    and self: "i < length (tasks s) \<Longrightarrow>
        recorded_at vm service keys (sched @ [e]) (at (tasks s' ! i)) (results s' ! i) i"
  shows "recorded vm service keys (sched @ [e]) s'"
  unfolding recorded_iff
proof (intro allI impI)
  fix j assume "j < length (tasks s')"
  then have j: "j < length (tasks s)" using len by simp
  show "recorded_at vm service keys (sched @ [e]) (at (tasks s' ! j)) (results s' ! j) j"
  proof (cases "j = i")
    case True
    with self j show ?thesis by simp
  next
    case False
    from old j have "recorded_at vm service keys sched (at (tasks s ! j)) (results s ! j) j"
      by (simp add: recorded_iff)
    then have "recorded_at vm service keys (sched @ [e]) (at (tasks s ! j)) (results s ! j) j"
      by (rule recorded_at_mono)
    with others[OF j False] show ?thesis by simp
  qed
qed

lemma recorded_same:
  assumes "recorded vm service keys sched s"
  shows "recorded vm service keys (sched @ [e]) s"
  using recorded_change_one[OF assms, of s 0 e] assms
  by (simp add: recorded_iff recorded_at_mono)

lemma at_move_other: "j < length ts \<Longrightarrow> j \<noteq> i \<Longrightarrow> at (move ts i p ! j) = at (ts ! j)"
  by (simp add: nth_move)

lemma at_move_this: "i < length ts \<Longrightarrow> at (move ts i p ! i) = p"
  by (simp add: nth_move)

lemma recorded_step:
  assumes rec: "recorded vm service keys sched s" and sh: "shaped keys s"
  shows "recorded vm service keys (sched @ [e]) (step vm service keys s e)"
proof (cases "step vm service keys s e = s")
  case True
  with recorded_same[OF rec] show ?thesis by simp
next
  case moved: False
  show ?thesis
  proof (cases e)
    case Spawn
    with moved have lt: "length (tasks s) < length keys" by (auto split: if_splits)
    let ?s' = "step vm service keys s e"
    have s': "?s' = s\<lparr>tasks := tasks s @
                 [\<lparr>index = length (tasks s), apiKey = keys ! length (tasks s), at = Created\<rparr>],
             wg := wg s + 1\<rparr>"
      using Spawn lt by simp
    show ?thesis
      unfolding recorded_iff
    proof (intro allI impI)
      fix j assume "j < length (tasks ?s')"
      then have "j < length (tasks s) \<or> j = length (tasks s)" by (auto simp: s')
      then show "recorded_at vm service keys (sched @ [e]) (at (tasks ?s' ! j)) (results ?s' ! j) j"
      proof
        assume j: "j < length (tasks s)"
        from rec j have "recorded_at vm service keys sched (at (tasks s ! j)) (results s ! j) j"
          by (simp add: recorded_iff)
        then have "recorded_at vm service keys (sched @ [e]) (at (tasks s ! j)) (results s ! j) j"
          by (rule recorded_at_mono)
        with j show ?thesis by (simp add: s' nth_append)
      next
        assume "j = length (tasks s)"
        then show ?thesis by (simp add: s' recorded_at_def)
      qed
    qed
  next
    case (Acquire i)
    with moved have g: "i < length (tasks s)" "at (tasks s ! i) = Created" "semaphore s < 5"
      by (auto split: if_splits)
    have s': "step vm service keys s e =
        s\<lparr>tasks := move (tasks s) i Running, semaphore := semaphore s + 1\<rparr>"
      using Acquire g by simp
    show ?thesis
      unfolding s'
      by (rule recorded_change_one[OF rec, where i = i])
        (simp_all add: length_move at_move_other at_move_this recorded_at_def)
  next
    case (Return i w)
    with moved have g: "i < length (tasks s)" "at (tasks s ! i) = Running"
      by (auto split: if_splits)
    have key: "apiKey (tasks s ! i) = keys ! i"
      using sh g(1) by (simp add: shaped_def)
    have s': "step vm service keys s e =
        s\<lparr>tasks := move (tasks s) i (Returned (ValidateKey vm w service (keys ! i)))\<rparr>"
      using Return g key by simp
    have here: "Return i w \<in> set (sched @ [e])" using Return by simp
    have now: "recorded_at vm service keys (sched @ [e])
        (Returned (ValidateKey vm w service (keys ! i))) (results s ! i) i"
      using here by (auto simp: recorded_at_def simp del: set_append intro!: exI[of _ w])
    show ?thesis
      unfolding s'
      by (rule recorded_change_one[OF rec, where i = i])
        (simp_all add: length_move at_move_other at_move_this now)
  next
    case (Store i w)
    with moved obtain r where g: "i < length (tasks s)" "at (tasks s ! i) = Returned r"
      by (auto split: if_splits point.splits)
    have idx: "index (tasks s ! i) = i" and len: "i < length (results s)"
      using sh g(1) by (simp_all add: shaped_def)
    have s': "step vm service keys s e =
        s\<lparr>results := (results s)[i := Some (slot_value service r (time_Now w))],
          tasks := move (tasks s) i (Stored r)\<rparr>"
      using Store g idx by simp
    from rec g have "recorded_at vm service keys sched (Returned r) (results s ! i) i"
      by (auto simp: recorded_iff)
    then have "recorded_at vm service keys (sched @ [e]) (Returned r) (results s ! i) i"
      by (rule recorded_at_mono)
    then have ret: "\<exists>w. Return i w \<in> set (sched @ [e]) \<and> r = ValidateKey vm w service (keys ! i)"
      by (simp add: recorded_at_def)
    have here: "Store i w \<in> set (sched @ [e])" using Store by simp
    have now: "recorded_at vm service keys (sched @ [e]) (Stored r)
        (Some (slot_value service r (time_Now w))) i"
      using ret here by (auto simp: recorded_at_def simp del: set_append intro!: exI[of _ w])
    show ?thesis
      unfolding s'
      by (rule recorded_change_one[OF rec, where i = i])
        (simp_all add: length_move at_move_other at_move_this len now)
  next
    case (Release i)
    with moved obtain r where g: "i < length (tasks s)" "at (tasks s ! i) = Stored r"
      by (auto split: if_splits point.splits)
    have s': "step vm service keys s e =
        s\<lparr>semaphore := semaphore s - 1, tasks := move (tasks s) i (Released r)\<rparr>"
      using Release g by simp
    from rec g have "recorded_at vm service keys sched (Stored r) (results s ! i) i"
      by (auto simp: recorded_iff)
    then have "recorded_at vm service keys (sched @ [e]) (Stored r) (results s ! i) i"
      by (rule recorded_at_mono)
    then have now: "recorded_at vm service keys (sched @ [e]) (Released r) (results s ! i) i"
      by (simp add: recorded_at_def)
    show ?thesis
      unfolding s'
      by (rule recorded_change_one[OF rec, where i = i])
        (simp_all add: length_move at_move_other at_move_this now)
  next
    case (Done i)
    with moved obtain r where g: "i < length (tasks s)" "at (tasks s ! i) = Released r"
      by (auto split: if_splits point.splits)
    have s': "step vm service keys s e =
        s\<lparr>wg := wg s - 1, tasks := move (tasks s) i (Finished r)\<rparr>"
      using Done g by simp
    from rec g have "recorded_at vm service keys sched (Released r) (results s ! i) i"
      by (auto simp: recorded_iff)
    then have "recorded_at vm service keys (sched @ [e]) (Released r) (results s ! i) i"
      by (rule recorded_at_mono)
    then have now: "recorded_at vm service keys (sched @ [e]) (Finished r) (results s ! i) i"
      by (simp add: recorded_at_def)
    show ?thesis
      unfolding s'
      by (rule recorded_change_one[OF rec, where i = i])
        (simp_all add: length_move at_move_other at_move_this now)
  next
    case Wait
    with moved have s': "step vm service keys s e = s\<lparr>returned := Some (results s)\<rparr>"
      by (auto split: if_splits)
    show ?thesis
      unfolding s'
      by (rule recorded_change_one[OF rec, where i = 0])
        (use rec in \<open>simp_all add: recorded_iff recorded_at_mono\<close>)
  qed
qed

lemma recorded_run: "recorded vm service keys sched (run vm service keys sched)"
proof (induction sched rule: rev_induct)
  case Nil
  show ?case by (simp add: run_Nil start_def recorded_def)
next
  case (snoc e sched)
  from recorded_step[OF snoc shaped_run] show ?case by (simp add: run_snoc)
qed

lemma joined_step:
  assumes "joined keys s" and "counted s"
  shows "joined keys (step vm service keys s e)"
proof (cases "returned s")
  case None
  then show ?thesis
    by (cases e) (auto simp: joined_def split: point.splits)
next
  case (Some out)
  with assms(1) have f: "out = results s" "length (tasks s) = length keys" "wg s = 0"
    by (simp_all add: joined_def)
  have fin: "\<exists>r. at (tasks s ! i) = Finished r" if "i < length (tasks s)" for i
    using counted_zero_finished[OF assms(2) f(3) that] .
  have "step vm service keys s e = s"
  proof (cases e)
    case Spawn
    with f show ?thesis by simp
  next
    case (Acquire i)
    with fin[of i] show ?thesis by auto
  next
    case (Return i w)
    with fin[of i] show ?thesis by auto
  next
    case (Store i w)
    with fin[of i] show ?thesis by auto
  next
    case (Release i)
    with fin[of i] show ?thesis by auto
  next
    case (Done i)
    with fin[of i] show ?thesis by auto
  next
    case Wait
    with Some show ?thesis by simp
  qed
  with assms(1) show ?thesis by simp
qed

lemma joined_run: "joined keys (run vm service keys sched)"
proof (induction sched rule: rev_induct)
  case Nil
  show ?case by (simp add: run_Nil start_def joined_def)
next
  case (snoc e sched)
  from joined_step[OF snoc counted_run] show ?case by (simp add: run_snoc)
qed

text \<open>What holds of every goroutine when the call has returned.\<close>

lemma returned_all:
  assumes "returned (run vm service keys sched) = Some out"
  shows "out = results (run vm service keys sched)"
    and "length (tasks (run vm service keys sched)) = length keys"
    and "wg (run vm service keys sched) = 0"
    and "length out = length keys"
proof -
  let ?s = "run vm service keys sched"
  from joined_run[of keys vm service sched] assms
  show f: "out = results ?s" "length (tasks ?s) = length keys" "wg ?s = 0"
    by (simp_all add: joined_def)
  from shaped_run[of keys vm service sched] f(1)
  show "length out = length keys" by (simp add: shaped_def)
qed

lemma returned_slot:
  assumes "returned (run vm service keys sched) = Some out" and "i < length keys"
  shows "\<exists>r w w'. at (tasks (run vm service keys sched) ! i) = Finished r \<and>
       Return i w \<in> set sched \<and> r = ValidateKey vm w service (keys ! i) \<and>
       Store i w' \<in> set sched \<and>
       out ! i = Some (slot_value service r (time_Now w'))"
proof -
  let ?s = "run vm service keys sched"
  note f = returned_all[OF assms(1)]
  have i: "i < length (tasks ?s)" using assms(2) f(2) by simp
  from counted_zero_finished[OF counted_run f(3) i]
  obtain r where r: "at (tasks ?s ! i) = Finished r" by blast
  from recorded_run[of vm service keys sched] i
  have "recorded_at vm service keys sched (at (tasks ?s ! i)) (results ?s ! i) i"
    by (simp add: recorded_iff)
  then have "(\<exists>w. Return i w \<in> set sched \<and> r = ValidateKey vm w service (keys ! i)) \<and>
      (\<exists>w'. Store i w' \<in> set sched \<and> out ! i = Some (slot_value service r (time_Now w')))"
    unfolding r f(1) by (simp add: recorded_at_def)
  then obtain w w' where "Return i w \<in> set sched" "r = ValidateKey vm w service (keys ! i)"
    "Store i w' \<in> set sched" "out ! i = Some (slot_value service r (time_Now w'))"
    by blast
  with r show ?thesis by blast
qed

text \<open>Every step that moves takes one unit off the work that is left.\<close>

lemma sum_update:
  "i < length ts \<Longrightarrow>
   sum_list (map f (ts[i := y])) + f (ts ! i) = sum_list (map f ts) + (f y :: nat)"
proof (induction ts arbitrary: i)
  case Nil
  then show ?case by simp
next
  case (Cons t ts)
  show ?case
  proof (cases i)
    case 0
    then show ?thesis by simp
  next
    case (Suc j)
    with Cons.prems have "j < length ts" by simp
    from Cons.IH[OF this] Suc show ?thesis by simp
  qed
qed

lemma left_move:
  assumes "i < length ts"
  shows "sum_list (map (\<lambda>t. steps_left (at t)) (move ts i p)) + steps_left (at (ts ! i)) =
         sum_list (map (\<lambda>t. steps_left (at t)) ts) + steps_left p"
  using sum_update[OF assms, of "\<lambda>t. steps_left (at t)" "(ts ! i)\<lparr>at := p\<rparr>"]
  by (simp add: move_def)

lemma step_takes_one:
  assumes "step vm service keys s e \<noteq> s"
  shows "Suc (remaining keys (step vm service keys s e)) = remaining keys s"
proof (cases e)
  case Spawn
  with assms have "length (tasks s) < length keys" by (auto split: if_splits)
  with Spawn show ?thesis by (simp add: remaining_def Suc_diff_Suc)
next
  case (Acquire i)
  with assms have g: "i < length (tasks s)" "at (tasks s ! i) = Created" "semaphore s < 5"
    by (auto split: if_splits)
  with left_move[OF g(1), of Running] Acquire show ?thesis
    by (simp add: remaining_def length_move)
next
  case (Return i w)
  with assms have g: "i < length (tasks s)" "at (tasks s ! i) = Running"
    by (auto split: if_splits)
  with left_move[OF g(1), of "Returned (ValidateKey vm w service (apiKey (tasks s ! i)))"] Return
  show ?thesis by (simp add: remaining_def length_move)
next
  case (Store i w)
  with assms obtain r where g: "i < length (tasks s)" "at (tasks s ! i) = Returned r"
    by (auto split: if_splits point.splits)
  with left_move[OF g(1), of "Stored r"] Store show ?thesis
    by (simp add: remaining_def length_move)
next
  case (Release i)
  with assms obtain r where g: "i < length (tasks s)" "at (tasks s ! i) = Stored r"
    by (auto split: if_splits point.splits)
  with left_move[OF g(1), of "Released r"] Release show ?thesis
    by (simp add: remaining_def length_move)
next
  case (Done i)
  with assms obtain r where g: "i < length (tasks s)" "at (tasks s ! i) = Released r"
    by (auto split: if_splits point.splits)
  with left_move[OF g(1), of "Finished r"] Done show ?thesis
    by (simp add: remaining_def length_move)
next
  case Wait
  with assms have "length (tasks s) = length keys \<and> wg s = 0 \<and> returned s = None"
    by (auto split: if_splits)
  with Wait show ?thesis by (simp add: remaining_def)
qed

text \<open>
  No state that the call can reach before it returns is stuck: the main thread can start
  a goroutine or return from \<open>wg.Wait()\<close>, or a goroutine can take its next step. A
  goroutine that waits to send finds room in the channel unless another one holds an
  element, and that one can move.
\<close>

lemma move_differs:
  assumes "i < length ts" and "at (ts ! i) \<noteq> p"
  shows "move ts i p \<noteq> ts"
proof
  assume "move ts i p = ts"
  then have "at (move ts i p ! i) = at (ts ! i)" by simp
  with assms show False by (simp add: nth_move)
qed

lemma tasks_differ: "tasks s' \<noteq> tasks s \<Longrightarrow> s' \<noteq> s"
  by auto

lemma holder_moves:
  assumes "i < length (tasks s)" and "holds_permit (at (tasks s ! i))"
  shows "\<exists>e. step vm service keys s e \<noteq> s"
proof (cases "at (tasks s ! i)")
  case Running
  have "step vm service keys s (Return i w) \<noteq> s" for w
    by (rule tasks_differ) (simp add: assms(1) Running move_differs)
  then show ?thesis by blast
next
  case (Returned r)
  have "step vm service keys s (Store i w) \<noteq> s" for w
    by (rule tasks_differ) (simp add: assms(1) Returned move_differs)
  then show ?thesis by blast
next
  case (Stored r)
  have "step vm service keys s (Release i) \<noteq> s"
    by (rule tasks_differ) (simp add: assms(1) Stored move_differs)
  then show ?thesis by blast
qed (use assms(2) in simp_all)

lemma never_stuck:
  assumes "shaped keys s" and "permits_ok s" and "counted s" and "returned s = None"
  shows "\<exists>e. step vm service keys s e \<noteq> s"
proof (cases "length (tasks s) < length keys")
  case True
  then have "step vm service keys s Spawn \<noteq> s"
    by (intro tasks_differ) simp
  then show ?thesis by blast
next
  case False
  with assms(1) have all: "length (tasks s) = length keys" by (simp add: shaped_def)
  show ?thesis
  proof (cases "wg s = 0")
    case True
    have "returned (step vm service keys s Wait) = Some (results s)"
      using all True assms(4) by simp
    then have "step vm service keys s Wait \<noteq> s"
      using assms(4) by (metis option.distinct(1))
    then show ?thesis by blast
  next
    case False
    with assms(3) have "filter (\<lambda>t. live (at t)) (tasks s) \<noteq> []"
      by (auto simp: counted_def)
    then obtain t where "t \<in> set (tasks s)" "live (at t)"
      by (auto simp: filter_empty_conv)
    then obtain i where i: "i < length (tasks s)" "live (at (tasks s ! i))"
      by (auto simp: in_set_conv_nth)
    show ?thesis
    proof (cases "at (tasks s ! i)")
      case Created
      show ?thesis
      proof (cases "semaphore s < 5")
        case True
        have "step vm service keys s (Acquire i) \<noteq> s"
          by (rule tasks_differ) (simp add: i(1) Created True move_differs)
        then show ?thesis by blast
      next
        case False
        with assms(2) have "filter (\<lambda>t. holds_permit (at t)) (tasks s) \<noteq> []"
          by (auto simp: permits_ok_def)
        then obtain u where "u \<in> set (tasks s)" "holds_permit (at u)"
          by (auto simp: filter_empty_conv)
        then obtain j where "j < length (tasks s)" "holds_permit (at (tasks s ! j))"
          by (auto simp: in_set_conv_nth)
        then show ?thesis by (rule holder_moves)
      qed
    next
      case (Released r)
      have "step vm service keys s (Done i) \<noteq> s"
        by (rule tasks_differ) (simp add: i(1) Released move_differs)
      then show ?thesis by blast
    next
      case (Finished r)
      with i(2) show ?thesis by simp
    qed (use i(1) in \<open>auto intro: holder_moves\<close>)
  qed
qed

lemma run_never_stuck:
  assumes "returned (run vm service keys sched) = None"
  shows "\<exists>e. step vm service keys (run vm service keys sched) e \<noteq> run vm service keys sched"
  using never_stuck[OF shaped_run permits_run counted_run assms] .

text \<open>
  So the call returns: from every state it can reach, at most \<open>remaining\<close> further steps
  bring it to its return.
\<close>

lemma run_append:
  "run vm service keys (sched @ rest) =
     foldl (step vm service keys) (run vm service keys sched) rest"
  by (simp add: run_def)

lemma run_completes:
  "\<exists>rest. length rest \<le> remaining keys (run vm service keys sched) \<and>
     returned (run vm service keys (sched @ rest)) \<noteq> None"
proof (induction "remaining keys (run vm service keys sched)" arbitrary: sched rule: less_induct)
  case less
  show ?case
  proof (cases "returned (run vm service keys sched) = None")
    case False
    then have "length ([] :: event list) \<le> remaining keys (run vm service keys sched) \<and>
        returned (run vm service keys (sched @ [])) \<noteq> None"
      by simp
    then show ?thesis by blast
  next
    case True
    from run_never_stuck[OF True] obtain e where
      e: "step vm service keys (run vm service keys sched) e \<noteq> run vm service keys sched"
      by blast
    from step_takes_one[OF e]
    have one: "Suc (remaining keys (run vm service keys (sched @ [e]))) =
        remaining keys (run vm service keys sched)"
      by (simp add: run_snoc)
    then have "remaining keys (run vm service keys (sched @ [e])) <
        remaining keys (run vm service keys sched)"
      by simp
    from less[OF this] obtain rest where
      rest: "length rest \<le> remaining keys (run vm service keys (sched @ [e]))"
        "returned (run vm service keys ((sched @ [e]) @ rest)) \<noteq> None"
      by blast
    have "length (e # rest) \<le> remaining keys (run vm service keys sched)"
      using rest(1) one by simp
    moreover have "returned (run vm service keys (sched @ e # rest)) \<noteq> None"
      using rest(2) by simp
    ultimately show ?thesis by blast
  qed
qed

text \<open>
  Claim C4: \<open>ValidateKeysParallel\<close> returns, under any schedule: from every state it can
  reach, at most \<open>remaining\<close> further steps bring it to its return, and every step that
  moves takes one off \<open>remaining\<close>, so that no schedule makes more moves than that. And
  when it has returned, the returned slice is as long as the key sequence, and its
  element at every position \<open>i\<close> is the verdict made from what \<open>ValidateKey\<close> returned, in
  the schedule, for the key at position \<open>i\<close>.
\<close>

theorem results_positional:
  "(\<exists>rest res. length rest \<le> remaining keys (run vm service keys sched) \<and>
      returned (run vm service keys (sched @ rest)) = Some res) \<and>
   (returned (run vm service keys sched) = Some out \<longrightarrow>
      length out = length keys \<and>
      (\<forall>i<length keys. \<exists>w w'. Return i w \<in> set sched \<and> Store i w' \<in> set sched \<and>
         out ! i = Some (slot_value service (ValidateKey vm w service (keys ! i)) (time_Now w')))) \<and>
   (step vm service keys (run vm service keys sched) e \<noteq> run vm service keys sched \<longrightarrow>
      Suc (remaining keys (step vm service keys (run vm service keys sched) e)) =
        remaining keys (run vm service keys sched))"
proof (intro conjI impI allI)
  assume "step vm service keys (run vm service keys sched) e \<noteq> run vm service keys sched"
  then show "Suc (remaining keys (step vm service keys (run vm service keys sched) e)) =
        remaining keys (run vm service keys sched)"
    by (rule step_takes_one)
next
  from run_completes[of keys vm service sched]
  show "\<exists>rest res. length rest \<le> remaining keys (run vm service keys sched) \<and>
      returned (run vm service keys (sched @ rest)) = Some res"
    by fastforce
next
  assume "returned (run vm service keys sched) = Some out"
  then show "length out = length keys" by (rule returned_all(4))
next
  fix i
  assume ret: "returned (run vm service keys sched) = Some out" and "i < length keys"
  from returned_slot[OF this]
  obtain r w w' where "Return i w \<in> set sched" "r = ValidateKey vm w service (keys ! i)"
    "Store i w' \<in> set sched" "out ! i = Some (slot_value service r (time_Now w'))"
    by blast
  then show "\<exists>w w'. Return i w \<in> set sched \<and> Store i w' \<in> set sched \<and>
       out ! i = Some (slot_value service (ValidateKey vm w service (keys ! i)) (time_Now w'))"
    by blast
qed

text \<open>
  Claim C5: a key whose validation fails holds up no other key and not the call. No
  state that the call can reach before its return is stuck, and from every such state
  at most \<open>remaining\<close> further steps bring the call to its return. When the call has
  returned, every goroutine has finished, and the slot of every key depends on what
  \<open>ValidateKey\<close> returned for that key alone: when it is an error, the slot holds a
  verdict with \<open>Valid = false\<close> that records the error; otherwise the slot holds the
  verdict returned.
\<close>

theorem failure_stays_in_its_slot:
  "(returned (run vm service keys sched) = None \<longrightarrow>
      (\<exists>e. step vm service keys (run vm service keys sched) e \<noteq> run vm service keys sched)) \<and>
   (\<exists>rest res. length rest \<le> remaining keys (run vm service keys sched) \<and>
      returned (run vm service keys (sched @ rest)) = Some res) \<and>
   (returned (run vm service keys sched) = Some out \<and> i < length keys \<longrightarrow>
      length (tasks (run vm service keys sched)) = length keys \<and>
      (\<exists>r w. at (tasks (run vm service keys sched) ! i) = Finished r \<and>
         Return i w \<in> set sched \<and> r = ValidateKey vm w service (keys ! i) \<and>
         (case r of
            Inl err \<Rightarrow>
              (\<exists>v. out ! i = Some v \<and> \<not> Valid v \<and> Service v = service \<and>
                   Error v = Some err \<and> ErrorStr v = err)
          | Inr result \<Rightarrow> out ! i = Some result)))"
proof (intro conjI impI)
  assume "returned (run vm service keys sched) = None"
  then show "\<exists>e. step vm service keys (run vm service keys sched) e \<noteq> run vm service keys sched"
    by (rule run_never_stuck)
next
  from run_completes[of keys vm service sched]
  show "\<exists>rest res. length rest \<le> remaining keys (run vm service keys sched) \<and>
      returned (run vm service keys (sched @ rest)) = Some res"
    by fastforce
next
  assume "returned (run vm service keys sched) = Some out \<and> i < length keys"
  then show "length (tasks (run vm service keys sched)) = length keys"
    using returned_all(2) by blast
next
  assume a: "returned (run vm service keys sched) = Some out \<and> i < length keys"
  then have ret: "returned (run vm service keys sched) = Some out" and i: "i < length keys"
    by simp_all
  from returned_slot[OF ret i]
  obtain r w w' where all: "at (tasks (run vm service keys sched) ! i) = Finished r \<and>
       Return i w \<in> set sched \<and> r = ValidateKey vm w service (keys ! i) \<and>
       Store i w' \<in> set sched \<and>
       out ! i = Some (slot_value service r (time_Now w'))"
    by (elim exE)
  then have r: "at (tasks (run vm service keys sched) ! i) = Finished r"
    "Return i w \<in> set sched" "r = ValidateKey vm w service (keys ! i)"
    "out ! i = Some (slot_value service r (time_Now w'))"
    by simp_all
  have "case r of
          Inl err \<Rightarrow>
            (\<exists>v. out ! i = Some v \<and> \<not> Valid v \<and> Service v = service \<and>
                 Error v = Some err \<and> ErrorStr v = err)
        | Inr result \<Rightarrow> out ! i = Some result"
    using r(4) by (cases r) (simp_all add: slot_value_def error_result_def)
  with r(1-3) show "\<exists>r w. at (tasks (run vm service keys sched) ! i) = Finished r \<and>
         Return i w \<in> set sched \<and> r = ValidateKey vm w service (keys ! i) \<and>
         (case r of
            Inl err \<Rightarrow>
              (\<exists>v. out ! i = Some v \<and> \<not> Valid v \<and> Service v = service \<and>
                   Error v = Some err \<and> ErrorStr v = err)
          | Inr result \<Rightarrow> out ! i = Some result)"
    by blast
qed

lemma crossed_run:
  "returned (run picky_manager ''svc'' two_keys crossed_schedule) =
     Some [Some (error_result ''svc'' ''connection refused'' 0), Some ok_result]"
  by (simp add: run_def start_def crossed_schedule_def two_keys_def move_def
      ValidateKey_def GetValidator_def picky_manager_def picky_validator_def
      RegisterValidator_def NewValidationManager_def slot_value_def base_world_def)

lemma crowd_run:
  "map at (tasks (run NewValidationManager ''svc'' six_keys crowd_schedule)) =
     [Running, Running, Running, Running, Running, Created]"
  by (simp add: run_def start_def crowd_schedule_def six_keys_def move_def eval_nat_numeral)

lemma picky_good: "ValidateKey picky_manager w ''svc'' ''good'' = Inr ok_result"
  by (simp add: ValidateKey_def GetValidator_def picky_manager_def picky_validator_def
      RegisterValidator_def NewValidationManager_def)

lemma picky_bad: "ValidateKey picky_manager w ''svc'' ''bad'' = Inl ''connection refused''"
  by (simp add: ValidateKey_def GetValidator_def picky_manager_def picky_validator_def
      RegisterValidator_def NewValidationManager_def)

lemma jam_run:
  "map at (tasks (run picky_manager ''svc'' mixed_keys jam_schedule)) =
     [Returned (Inl ''connection refused''), Returned (Inl ''connection refused''),
      Returned (Inl ''connection refused''), Returned (Inl ''connection refused''),
      Returned (Inl ''connection refused''), Created] \<and>
   semaphore (run picky_manager ''svc'' mixed_keys jam_schedule) = 5 \<and>
   returned (run picky_manager ''svc'' mixed_keys jam_schedule) = None"
  by (simp add: run_def start_def jam_schedule_def mixed_keys_def move_def picky_bad
      eval_nat_numeral)

lemma jam_left: "remaining mixed_keys (run picky_manager ''svc'' mixed_keys jam_schedule) = 21"
  by (simp add: remaining_def run_def start_def jam_schedule_def mixed_keys_def move_def picky_bad
      eval_nat_numeral)

lemma jam_moves:
  "step picky_manager ''svc'' mixed_keys (run picky_manager ''svc'' mixed_keys jam_schedule)
     (Store 0 base_world) \<noteq> run picky_manager ''svc'' mixed_keys jam_schedule"
  by (rule tasks_differ)
    (simp add: run_def start_def jam_schedule_def mixed_keys_def move_def picky_bad
      eval_nat_numeral)

theorem at_most_five_in_flight_witness:
  "in_flight (run NewValidationManager ''svc'' six_keys crowd_schedule) = 5 \<and>
   in_flight (run NewValidationManager ''svc'' six_keys crowd_schedule) \<le> 5 \<and>
   map at (tasks (run NewValidationManager ''svc'' six_keys crowd_schedule)) =
     [Running, Running, Running, Running, Running, Created]"
proof -
  have "in_flight (run NewValidationManager ''svc'' six_keys crowd_schedule) =
      length (filter (\<lambda>p. p = Running)
        (map at (tasks (run NewValidationManager ''svc'' six_keys crowd_schedule))))"
    by (simp add: in_flight_def filter_map comp_def)
  then have "in_flight (run NewValidationManager ''svc'' six_keys crowd_schedule) = 5"
    by (simp only: crowd_run) simp
  with at_most_five_in_flight[of NewValidationManager "''svc''" six_keys crowd_schedule] crowd_run
  show ?thesis by simp
qed

text \<open>
  Two concrete runs of claim C4: the crossed run of two keys, evaluated to its end, and
  the jammed run of six keys, which still returns, with the verdict of the sixth key in
  the sixth place.
\<close>

theorem results_positional_witness:
  "returned (run picky_manager ''svc'' two_keys crossed_schedule) =
     Some [Some (error_result ''svc'' ''connection refused'' 0), Some ok_result] \<and>
   length [Some (error_result ''svc'' ''connection refused'' 0), Some ok_result] = length two_keys \<and>
   (\<exists>w w'. Return 1 w \<in> set crossed_schedule \<and> Store 1 w' \<in> set crossed_schedule \<and>
      Some ok_result =
        Some (slot_value ''svc'' (ValidateKey picky_manager w ''svc'' (two_keys ! 1)) (time_Now w'))) \<and>
   (\<exists>rest res. length rest \<le> 21 \<and>
      returned (run picky_manager ''svc'' mixed_keys (jam_schedule @ rest)) = Some res \<and>
      length res = 6 \<and> res ! 5 = Some ok_result) \<and>
   step picky_manager ''svc'' mixed_keys (run picky_manager ''svc'' mixed_keys jam_schedule)
     (Store 0 base_world) \<noteq> run picky_manager ''svc'' mixed_keys jam_schedule \<and>
   remaining mixed_keys
     (step picky_manager ''svc'' mixed_keys (run picky_manager ''svc'' mixed_keys jam_schedule)
        (Store 0 base_world)) = 20"
proof -
  have one: "(1::nat) < length two_keys" by (simp add: two_keys_def)
  from results_positional[of two_keys picky_manager "''svc''" crossed_schedule
      "[Some (error_result ''svc'' ''connection refused'' 0), Some ok_result]"] crossed_run one
  have a: "length [Some (error_result ''svc'' ''connection refused'' 0), Some ok_result] = length two_keys"
    and b: "\<exists>w w'. Return 1 w \<in> set crossed_schedule \<and> Store 1 w' \<in> set crossed_schedule \<and>
      [Some (error_result ''svc'' ''connection refused'' 0), Some ok_result] ! 1 =
        Some (slot_value ''svc'' (ValidateKey picky_manager w ''svc'' (two_keys ! 1)) (time_Now w'))"
    by blast+
  from results_positional[of mixed_keys picky_manager "''svc''" jam_schedule]
  obtain rest res where
    rest: "length rest \<le> remaining mixed_keys (run picky_manager ''svc'' mixed_keys jam_schedule)"
    and res: "returned (run picky_manager ''svc'' mixed_keys (jam_schedule @ rest)) = Some res"
    by blast
  from rest have short: "length rest \<le> 21" by (simp add: jam_left)
  from results_positional[of mixed_keys picky_manager "''svc''" jam_schedule _ "Store 0 base_world"]
    jam_moves
  have "Suc (remaining mixed_keys
     (step picky_manager ''svc'' mixed_keys (run picky_manager ''svc'' mixed_keys jam_schedule)
        (Store 0 base_world))) = remaining mixed_keys (run picky_manager ''svc'' mixed_keys jam_schedule)"
    by blast
  then have d: "remaining mixed_keys
     (step picky_manager ''svc'' mixed_keys (run picky_manager ''svc'' mixed_keys jam_schedule)
        (Store 0 base_world)) = 20"
    by (simp add: jam_left)
  have five: "(5::nat) < length mixed_keys" and k: "mixed_keys ! 5 = ''good''"
    by (simp_all add: mixed_keys_def)
  from results_positional[of mixed_keys picky_manager "''svc''" "jam_schedule @ rest" res] res
  have len: "length res = length mixed_keys"
    and every: "\<forall>i<length mixed_keys. \<exists>w w'. Return i w \<in> set (jam_schedule @ rest) \<and>
      Store i w' \<in> set (jam_schedule @ rest) \<and>
      res ! i =
        Some (slot_value ''svc'' (ValidateKey picky_manager w ''svc'' (mixed_keys ! i)) (time_Now w'))"
    by simp_all
  from every five have "\<exists>(w::world) (w'::world). res ! 5 =
      Some (slot_value ''svc'' (ValidateKey picky_manager w ''svc'' (mixed_keys ! 5)) (time_Now w'))"
    by blast
  with len
  have "length res = 6" "res ! 5 = Some ok_result"
    by (auto simp: k picky_good slot_value_def mixed_keys_def)
  with res short have c: "\<exists>rest res. length rest \<le> 21 \<and>
      returned (run picky_manager ''svc'' mixed_keys (jam_schedule @ rest)) = Some res \<and>
      length res = 6 \<and> res ! 5 = Some ok_result"
    by blast
  from a b c d jam_moves crossed_run show ?thesis by simp
qed

text \<open>
  Two concrete runs of claim C5: the crossed run of two keys, where the first key fails,
  and the jammed run of six keys, where five failed keys hold every place in the
  channel: it is not stuck, it returns, and the sixth key has its own verdict.
\<close>

theorem failure_stays_in_its_slot_witness:
  "returned (run picky_manager ''svc'' two_keys crossed_schedule) =
     Some [Some (error_result ''svc'' ''connection refused'' 0), Some ok_result] \<and>
   (0::nat) < length two_keys \<and>
   ValidateKey picky_manager base_world ''svc'' (two_keys ! 0) = Inl ''connection refused'' \<and>
   length (tasks (run picky_manager ''svc'' two_keys crossed_schedule)) = length two_keys \<and>
   (\<exists>r. at (tasks (run picky_manager ''svc'' two_keys crossed_schedule) ! 0) = Finished r) \<and>
   \<not> Valid (error_result ''svc'' ''connection refused'' 0) \<and>
   Error (error_result ''svc'' ''connection refused'' 0) = Some ''connection refused'' \<and>
   semaphore (run picky_manager ''svc'' mixed_keys jam_schedule) = 5 \<and>
   returned (run picky_manager ''svc'' mixed_keys jam_schedule) = None \<and>
   (\<exists>e. step picky_manager ''svc'' mixed_keys (run picky_manager ''svc'' mixed_keys jam_schedule) e \<noteq>
      run picky_manager ''svc'' mixed_keys jam_schedule) \<and>
   (\<exists>rest res. returned (run picky_manager ''svc'' mixed_keys (jam_schedule @ rest)) = Some res \<and>
      res ! 5 = Some ok_result \<and>
      (\<exists>v. res ! 0 = Some v \<and> \<not> Valid v \<and> Error v = Some ''connection refused''))"
proof -
  have zero: "(0::nat) < length two_keys" by (simp add: two_keys_def)
  have vk: "ValidateKey picky_manager base_world ''svc'' (two_keys ! 0) = Inl ''connection refused''"
    by (simp add: picky_bad two_keys_def)
  from failure_stays_in_its_slot[of picky_manager "''svc''" two_keys crossed_schedule
      "[Some (error_result ''svc'' ''connection refused'' 0), Some ok_result]" 0] crossed_run zero
  have a: "length (tasks (run picky_manager ''svc'' two_keys crossed_schedule)) = length two_keys"
    and b: "\<exists>r. at (tasks (run picky_manager ''svc'' two_keys crossed_schedule) ! 0) = Finished r"
    by blast+
  note jam = failure_stays_in_its_slot[of picky_manager "''svc''" mixed_keys jam_schedule]
  from jam jam_run
  have c: "\<exists>e. step picky_manager ''svc'' mixed_keys (run picky_manager ''svc'' mixed_keys jam_schedule) e \<noteq>
      run picky_manager ''svc'' mixed_keys jam_schedule"
    by blast
  from jam obtain rest res where
    res: "returned (run picky_manager ''svc'' mixed_keys (jam_schedule @ rest)) = Some res"
    by blast
  have five: "(5::nat) < length mixed_keys" and k5: "mixed_keys ! 5 = ''good''"
    and nought: "(0::nat) < length mixed_keys" and k0: "mixed_keys ! 0 = ''bad''"
    by (simp_all add: mixed_keys_def)
  from failure_stays_in_its_slot[of picky_manager "''svc''" mixed_keys "jam_schedule @ rest" res 5]
    res five
  obtain r w where "r = ValidateKey picky_manager w ''svc'' (mixed_keys ! 5)"
    "case r of Inl err \<Rightarrow>
       (\<exists>v. res ! 5 = Some v \<and> \<not> Valid v \<and> Service v = ''svc'' \<and> Error v = Some err \<and> ErrorStr v = err)
     | Inr result \<Rightarrow> res ! 5 = Some result"
    by blast
  then have d: "res ! 5 = Some ok_result" by (simp add: k5 picky_good)
  from failure_stays_in_its_slot[of picky_manager "''svc''" mixed_keys "jam_schedule @ rest" res 0]
    res nought
  obtain r' w' where "r' = ValidateKey picky_manager w' ''svc'' (mixed_keys ! 0)"
    "case r' of Inl err \<Rightarrow>
       (\<exists>v. res ! 0 = Some v \<and> \<not> Valid v \<and> Service v = ''svc'' \<and> Error v = Some err \<and> ErrorStr v = err)
     | Inr result \<Rightarrow> res ! 0 = Some result"
    by blast
  then have e: "\<exists>v. res ! 0 = Some v \<and> \<not> Valid v \<and> Error v = Some ''connection refused''"
    by (auto simp: k0 picky_bad)
  from res d e have f: "\<exists>rest res. returned (run picky_manager ''svc'' mixed_keys (jam_schedule @ rest)) = Some res \<and>
      res ! 5 = Some ok_result \<and>
      (\<exists>v. res ! 0 = Some v \<and> \<not> Valid v \<and> Error v = Some ''connection refused'')"
    by blast
  have g: "\<not> Valid (error_result ''svc'' ''connection refused'' 0)"
    "Error (error_result ''svc'' ''connection refused'' 0) = Some ''connection refused''"
    by (simp_all add: error_result_def)
  from crossed_run zero vk a b c f g jam_run show ?thesis by blast
qed

end
